theory Spec2Isabelle
  imports Complex_Main "HOL-Library.Log_Nat" "HOL-Library.Sublist"
    "HOL-Library.List_Lexorder" "HOL-Library.Char_ord"
begin

section \<open>JavaScript numbers\<close>

text \<open>
  Every amount, total, average, percentage and width of \<^verbatim>\<open>expense-dashboard.tsx\<close> is a
  JavaScript \<^verbatim>\<open>number\<close>: an IEEE 754 binary64 value. A finite binary64 value is a
  rational, so a number is modelled as a rational or one of the three special values, and
  every arithmetic operation computes the exact rational result and rounds it to the
  nearest binary64 value, ties to the even significand, overflowing to an infinity.
  The two zeros are identified: the sign of a zero can be observed only by dividing by it
  or by printing it, and the code modelled here does neither.
\<close>

datatype number = Fin rat | PInf | NInf | NaN

definition pow2 :: "int \<Rightarrow> rat" where
  "pow2 e = (if 0 \<le> e then 2 ^ nat e else 1 / 2 ^ nat (- e))"

text \<open>\<open>ilog2 x\<close> is the binary exponent of a positive rational: \<open>2^e \<le> x < 2^(e+1)\<close>.\<close>

definition ilog2 :: "rat \<Rightarrow> int" where
  "ilog2 x = (if 1 \<le> x then bitlen \<lfloor>x\<rfloor> - 1 else - bitlen (\<lceil>1 / x\<rceil> - 1))"

definition round_even :: "rat \<Rightarrow> int" where
  "round_even y =
     (let f = \<lfloor>y\<rfloor>; d = y - of_int f
      in if d < 1 / 2 then f else if 1 / 2 < d then f + 1
         else if even f then f else f + 1)"

text \<open>
  Rounding to binary64: 53 significant bits, the exponent of the unit in the last place
  not below \<open>-1074\<close> (subnormal numbers), and every result of magnitude \<open>2^1024\<close> or more
  replaced by the infinity of its sign.
\<close>

definition rnd :: "rat \<Rightarrow> number" where
  "rnd x =
     (if x = 0 then Fin 0
      else let e = max (ilog2 \<bar>x\<bar>) (- 1022);
               u = pow2 (e - 52);
               r = of_int (round_even (x / u)) * u
           in if pow2 1024 \<le> r then PInf
              else if r \<le> - pow2 1024 then NInf
              else Fin r)"

fun fadd :: "number \<Rightarrow> number \<Rightarrow> number" where
  "fadd (Fin a) (Fin b) = rnd (a + b)"
| "fadd NaN _ = NaN"
| "fadd _ NaN = NaN"
| "fadd PInf NInf = NaN"
| "fadd NInf PInf = NaN"
| "fadd PInf _ = PInf"
| "fadd NInf _ = NInf"
| "fadd _ PInf = PInf"
| "fadd _ NInf = NInf"

fun fneg :: "number \<Rightarrow> number" where
  "fneg (Fin a) = Fin (- a)"
| "fneg PInf = NInf"
| "fneg NInf = PInf"
| "fneg NaN = NaN"

definition fsub :: "number \<Rightarrow> number \<Rightarrow> number" where
  "fsub a b = fadd a (fneg b)"

fun fmul :: "number \<Rightarrow> number \<Rightarrow> number" where
  "fmul (Fin a) (Fin b) = rnd (a * b)"
| "fmul NaN _ = NaN"
| "fmul _ NaN = NaN"
| "fmul PInf (Fin b) = (if b = 0 then NaN else if 0 < b then PInf else NInf)"
| "fmul NInf (Fin b) = (if b = 0 then NaN else if 0 < b then NInf else PInf)"
| "fmul (Fin a) PInf = (if a = 0 then NaN else if 0 < a then PInf else NInf)"
| "fmul (Fin a) NInf = (if a = 0 then NaN else if 0 < a then NInf else PInf)"
| "fmul PInf PInf = PInf"
| "fmul NInf NInf = PInf"
| "fmul PInf NInf = NInf"
| "fmul NInf PInf = NInf"

fun fdiv :: "number \<Rightarrow> number \<Rightarrow> number" where
  "fdiv (Fin a) (Fin b) =
     (if b = 0 then (if a = 0 then NaN else if 0 < a then PInf else NInf)
      else rnd (a / b))"
| "fdiv NaN _ = NaN"
| "fdiv _ NaN = NaN"
| "fdiv (Fin a) PInf = Fin 0"
| "fdiv (Fin a) NInf = Fin 0"
| "fdiv PInf (Fin b) = (if 0 \<le> b then PInf else NInf)"
| "fdiv NInf (Fin b) = (if 0 \<le> b then NInf else PInf)"
| "fdiv PInf PInf = NaN"
| "fdiv PInf NInf = NaN"
| "fdiv NInf PInf = NaN"
| "fdiv NInf NInf = NaN"

text \<open>The relational operators: every comparison with \<^verbatim>\<open>NaN\<close> is false.\<close>

fun js_lt :: "number \<Rightarrow> number \<Rightarrow> bool" where
  "js_lt (Fin a) (Fin b) = (a < b)"
| "js_lt NaN _ = False"
| "js_lt _ NaN = False"
| "js_lt _ NInf = False"
| "js_lt PInf _ = False"
| "js_lt NInf _ = True"
| "js_lt _ PInf = True"

definition js_eq :: "number \<Rightarrow> number \<Rightarrow> bool" where
  "js_eq a b = (a \<noteq> NaN \<and> a = b)"

definition js_le :: "number \<Rightarrow> number \<Rightarrow> bool" where
  "js_le a b = (js_lt a b \<or> js_eq a b)"

definition isNaN :: "number \<Rightarrow> bool" where
  "isNaN a = (a = NaN)"

definition isFinite :: "number \<Rightarrow> bool" where
  "isFinite a = (case a of Fin x \<Rightarrow> True | _ \<Rightarrow> False)"

text \<open>
  \<^verbatim>\<open>Math.max(a, b, ...)\<close>: \<^verbatim>\<open>NaN\<close> as soon as one argument is, \<^verbatim>\<open>-Infinity\<close> of no
  argument. \<^verbatim>\<open>Math.ceil\<close> of a binary64 value is a binary64 value, so it does not round.
\<close>

definition max2 :: "number \<Rightarrow> number \<Rightarrow> number" where
  "max2 a b = (if a = NaN \<or> b = NaN then NaN else if js_lt a b then b else a)"

definition Math_max :: "number list \<Rightarrow> number" where
  "Math_max xs = foldl max2 NInf xs"

fun Math_ceil :: "number \<Rightarrow> number" where
  "Math_ceil (Fin x) = Fin (of_int \<lceil>x\<rceil>)"
| "Math_ceil a = a"

section \<open>Strings\<close>

text \<open>
  Strings are lists of code units, and a character of the model is a code unit from
  U+0000 to U+00FF. \<^verbatim>\<open>toLowerCase\<close> maps the capital letters among them, \<^verbatim>\<open>A\<close> to \<^verbatim>\<open>Z\<close> and
  U+00C0 to U+00DE without the multiplication sign U+00D7, to the code unit 32 above, and
  leaves the others. The white space and the line terminators that \<^verbatim>\<open>trim\<close> and \<^verbatim>\<open>Number\<close>
  strip are, among these code units, the tab, line feed, vertical tab, form feed, carriage
  return, space and the no-break space U+00A0.
\<close>

definition toLowerCase :: "string \<Rightarrow> string" where
  "toLowerCase s =
     map (\<lambda>c. let n = (of_char c :: nat)
              in if (65 \<le> n \<and> n \<le> 90) \<or> (192 \<le> n \<and> n \<le> 222 \<and> n \<noteq> 215)
                 then char_of (n + 32) else c) s"

definition isWhiteSpace :: "char \<Rightarrow> bool" where
  "isWhiteSpace c = ((of_char c :: nat) \<in> {9, 10, 11, 12, 13, 32, 160})"

definition trim :: "string \<Rightarrow> string" where
  "trim s = rev (dropWhile isWhiteSpace (rev (dropWhile isWhiteSpace s)))"

fun str_includes :: "string \<Rightarrow> string \<Rightarrow> bool" where
  "str_includes [] t = (t = [])"
| "str_includes (c # s) t = (prefix t (c # s) \<or> str_includes s t)"

section \<open>The data model\<close>

datatype ExpenseCategory =
  Housing | Transportation | Food | Utilities | Entertainment | Health | Education | Other

datatype ExpenseFrequency = OneTime | Recurring

text \<open>
  The \<^verbatim>\<open>date\<close> of an expense in the component's state is always the output of
  \<^verbatim>\<open>toISOString()\<close> (seed data, hydration and \<^verbatim>\<open>handleSubmit\<close> all normalise it, and
  \<^verbatim>\<open>toISOString\<close> throws on an invalid date), so \<^verbatim>\<open>new Date(expense.date)\<close> is a valid
  date. The field holds its time value: the milliseconds since the epoch, an integer.
\<close>

record Expense =
  expense_id :: string
  label :: string
  amount :: number
  category :: ExpenseCategory
  date :: int
  frequency :: ExpenseFrequency
  expense_notes :: "string option"

text \<open>The \<^verbatim>\<open>'All'\<close> alternative of the two select filters.\<close>

datatype 'a or_all = AllValues | Only 'a

text \<open>
  The value of an \<^verbatim>\<open><input type="date">\<close>: the empty string, or a calendar date written
  year, month, day, with a year from 1 on of four or more digits, as in \<^verbatim>\<open>2024-03-10\<close> and
  \<^verbatim>\<open>10000-01-01\<close>. The date is held as the number of its day counted from 1970-01-01.
\<close>

datatype date_input = Blank | DateOnly int

definition msPerDay :: int where
  "msPerDay = 86400000"

text \<open>
  The environment the component runs in. It gives the offset of local time from UTC at
  an instant, in milliseconds, for \<^verbatim>\<open>getFullYear\<close> and \<^verbatim>\<open>getMonth\<close>; the text
  \<^verbatim>\<open>toLocaleString\<close> makes of a month key; and \<^verbatim>\<open>Date.parse\<close> of the value of a date input
  whose year has more than four digits. Such a string is outside the date-time string
  format of ECMAScript and its parse is left to the engine: a time value, or none for
  \<^verbatim>\<open>NaN\<close>. V8 reads it as midnight of that day in local time.
\<close>

record env =
  tzOffsetMs :: "int \<Rightarrow> int"
  monthLabel :: "string \<Rightarrow> string"
  fallbackParse :: "int \<Rightarrow> int option"

text \<open>
  \<^verbatim>\<open>new Date(value)\<close> of the value of a date input, as its time value: the milliseconds
  since the epoch, or none for the \<^verbatim>\<open>NaN\<close> of an invalid date. The empty string is not a
  date. A date with a four-digit year, a day from 0000-01-01 (day \<open>-719528\<close>) to
  9999-12-31 (day \<open>2932896\<close>), is in the date-only form \<^verbatim>\<open>YYYY-MM-DD\<close> and is the start of
  that day in UTC. Any other is what the engine makes of it. \<^verbatim>\<open>TimeClip\<close> keeps a time
  value of magnitude at most \<open>8.64 * 10^15\<close>.
\<close>

definition fourDigitYear :: "int \<Rightarrow> bool" where
  "fourDigitYear d = (- 719528 \<le> d \<and> d \<le> 2932896)"

definition timeClip :: "int \<Rightarrow> int option" where
  "timeClip t = (if \<bar>t\<bar> \<le> 8640000000000000 then Some t else None)"

fun newDate :: "env \<Rightarrow> date_input \<Rightarrow> int option" where
  "newDate ev Blank = None"
| "newDate ev (DateOnly d) =
     (if fourDigitYear d then timeClip (d * msPerDay)
      else (case fallbackParse ev d of None \<Rightarrow> None | Some t \<Rightarrow> timeClip t))"

declare newDate.simps [simp del]

record Filters =
  search :: string
  category_filter :: "ExpenseCategory or_all"
  frequency_filter :: "ExpenseFrequency or_all"
  startDate :: date_input
  endDate :: date_input

definition categories :: "ExpenseCategory list" where
  "categories =
     [Housing, Transportation, Food, Utilities, Entertainment, Health, Education, Other]"

definition initial_filters :: Filters where
  "initial_filters =
     \<lparr>search = [], category_filter = AllValues, frequency_filter = AllValues,
      startDate = Blank, endDate = Blank\<rparr>"

section \<open>The filter: \<^verbatim>\<open>filteredExpenses\<close>\<close>

definition matchesSearch :: "Filters \<Rightarrow> Expense \<Rightarrow> bool" where
  "matchesSearch f e =
     (let searchTerm = toLowerCase (trim (search f))
      in searchTerm = [] \<or> str_includes (toLowerCase (label e)) searchTerm \<or>
         (case expense_notes e of None \<Rightarrow> False
          | Some n \<Rightarrow> str_includes (toLowerCase n) searchTerm))"

definition matchesCategory :: "Filters \<Rightarrow> Expense \<Rightarrow> bool" where
  "matchesCategory f e =
     (case category_filter f of AllValues \<Rightarrow> True | Only c \<Rightarrow> category e = c)"

definition matchesFrequency :: "Filters \<Rightarrow> Expense \<Rightarrow> bool" where
  "matchesFrequency f e =
     (case frequency_filter f of AllValues \<Rightarrow> True | Only q \<Rightarrow> frequency e = q)"

text \<open>
  The two bounds compare dates by their time values, and a comparison with the \<^verbatim>\<open>NaN\<close> of
  an invalid date is false.
\<close>

definition matchesStart :: "env \<Rightarrow> Filters \<Rightarrow> Expense \<Rightarrow> bool" where
  "matchesStart ev f e =
     (startDate f = Blank \<or>
      (case newDate ev (startDate f) of None \<Rightarrow> False | Some b \<Rightarrow> b \<le> date e))"

definition matchesEnd :: "env \<Rightarrow> Filters \<Rightarrow> Expense \<Rightarrow> bool" where
  "matchesEnd ev f e =
     (endDate f = Blank \<or>
      (case newDate ev (endDate f) of None \<Rightarrow> False | Some b \<Rightarrow> date e \<le> b))"

definition filteredExpenses :: "env \<Rightarrow> Expense list \<Rightarrow> Filters \<Rightarrow> Expense list" where
  "filteredExpenses ev expenses f =
     filter (\<lambda>e. matchesSearch f e \<and> matchesCategory f e \<and> matchesFrequency f e \<and>
                 matchesStart ev f e \<and> matchesEnd ev f e) expenses"


section \<open>The aggregator\<close>

text \<open>
  The accumulator of the \<^verbatim>\<open>reduce\<close> over the filtered expenses; \<^verbatim>\<open>byDate\<close> holds the
  pairs \<^verbatim>\<open>{amount, date}\<close>, pushed in the order of the input.
\<close>

record totals =
  totals_total :: number
  recurring :: number
  byDate :: "(number \<times> int) list"

definition reduce_step :: "totals \<Rightarrow> Expense \<Rightarrow> totals" where
  "reduce_step acc e =
     acc\<lparr>totals_total := fadd (totals_total acc) (amount e),
         recurring := (if frequency e = Recurring then fadd (recurring acc) (amount e)
                       else recurring acc),
         byDate := byDate acc @ [(amount e, date e)]\<rparr>"

definition totals_of :: "Expense list \<Rightarrow> totals" where
  "totals_of es = foldl reduce_step \<lparr>totals_total = Fin 0, recurring = Fin 0, byDate = []\<rparr> es"

text \<open>
  \<^verbatim>\<open>firstDate\<close> and \<^verbatim>\<open>lastDate\<close>: a \<^verbatim>\<open>reduce\<close> that starts from the first entry, and the
  current time \<open>now\<close> (\<^verbatim>\<open>new Date()\<close>) when there is no entry.
\<close>

definition firstDate :: "int \<Rightarrow> (number \<times> int) list \<Rightarrow> int" where
  "firstDate now bd =
     (if 0 < length bd
      then foldl (\<lambda>earliest item. if snd item < earliest then snd item else earliest)
             (snd (hd bd)) bd
      else now)"

definition lastDate :: "int \<Rightarrow> (number \<times> int) list \<Rightarrow> int" where
  "lastDate now bd =
     (if 0 < length bd
      then foldl (\<lambda>latest item. if latest < snd item then snd item else latest)
             (snd (hd bd)) bd
      else now)"

text \<open>
  \<^verbatim>\<open>getTime()\<close> of a valid date: an integer of magnitude at most \<open>8.64 * 10^15\<close>, below
  \<open>2^53\<close>, hence a binary64 value.
\<close>

definition getTime :: "int \<Rightarrow> number" where
  "getTime t = Fin (of_int t)"

definition diffDays :: "int \<Rightarrow> Expense list \<Rightarrow> number" where
  "diffDays now es =
     (let bd = byDate (totals_of es)
      in Math_max [Fin 1,
           Math_ceil (fdiv (fsub (getTime (lastDate now bd)) (getTime (firstDate now bd)))
                        (Fin 86400000))])"

definition diffMonths :: "int \<Rightarrow> Expense list \<Rightarrow> number" where
  "diffMonths now es = Math_max [Fin 1, Math_ceil (fdiv (diffDays now es) (Fin 30))]"

record summary =
  total :: number
  avgDaily :: number
  avgMonthly :: number
  recurringTotal :: number

definition aggregator :: "int \<Rightarrow> Expense list \<Rightarrow> summary" where
  "aggregator now es =
     (if length es = 0
      then \<lparr>total = Fin 0, avgDaily = Fin 0, avgMonthly = Fin 0, recurringTotal = Fin 0\<rparr>
      else let ts = totals_of es
           in \<lparr>total = totals_total ts,
               avgDaily = fdiv (totals_total ts) (diffDays now es),
               avgMonthly = fdiv (totals_total ts) (diffMonths now es),
               recurringTotal = recurring ts\<rparr>)"

text \<open>
  The aggregator as the specification words it: the sum of the amounts in the order of
  the records, and the spans from the minimum and the maximum time stamp.
\<close>

definition sum_numbers :: "number list \<Rightarrow> number" where
  "sum_numbers xs = foldl fadd (Fin 0) xs"

definition spec_total :: "Expense list \<Rightarrow> number" where
  "spec_total es = sum_numbers (map amount es)"

definition spec_spanDays :: "Expense list \<Rightarrow> number" where
  "spec_spanDays es =
     Math_max [Fin 1,
       Math_ceil (fdiv (fsub (getTime (Max (date ` set es))) (getTime (Min (date ` set es))))
                    (Fin 86400000))]"

definition spec_spanMonths :: "Expense list \<Rightarrow> number" where
  "spec_spanMonths es = Math_max [Fin 1, Math_ceil (fdiv (spec_spanDays es) (Fin 30))]"

section \<open>Insertion-ordered maps\<close>

text \<open>
  A JavaScript \<^verbatim>\<open>Map\<close> keeps its entries in the order in which their keys were first
  set: an association list, where \<^verbatim>\<open>set\<close> of a key that is present replaces its value in
  place. \<open>coalesce\<close> is the operator \<^verbatim>\<open>??\<close> on the result of \<^verbatim>\<open>get\<close>.
\<close>

definition map_get :: "('k \<times> 'v) list \<Rightarrow> 'k \<Rightarrow> 'v option" where
  "map_get m k = map_of m k"

fun map_set :: "('k \<times> 'v) list \<Rightarrow> 'k \<Rightarrow> 'v \<Rightarrow> ('k \<times> 'v) list" where
  "map_set [] k v = [(k, v)]"
| "map_set ((k', v') # m) k v =
     (if k' = k then (k, v) # m else (k', v') # map_set m k v)"

definition coalesce :: "'v option \<Rightarrow> 'v \<Rightarrow> 'v" where
  "coalesce x d = (case x of None \<Rightarrow> d | Some v \<Rightarrow> v)"

section \<open>The category breakdown\<close>

definition byCategory :: "Expense list \<Rightarrow> (ExpenseCategory \<times> number) list" where
  "byCategory es =
     foldl (\<lambda>m e. map_set m (category e)
                    (fadd (coalesce (map_get m (category e)) (Fin 0)) (amount e))) [] es"

record bucket =
  bucket_category :: ExpenseCategory
  bucket_amount :: number
  percentage :: number
  width :: number

definition largest :: "Expense list \<Rightarrow> number" where
  "largest es = Math_max (Fin 1 # map snd (byCategory es))"

definition categoryBreakdown :: "Expense list \<Rightarrow> number \<Rightarrow> bucket list" where
  "categoryBreakdown es tot =
     map (\<lambda>c. let a = coalesce (map_get (byCategory es) c) (Fin 0)
              in \<lparr>bucket_category = c, bucket_amount = a,
                  percentage = (if js_eq tot (Fin 0) then Fin 0
                                else fmul (fdiv a tot) (Fin 100)),
                  width = fmul (fdiv a (largest es)) (Fin 100)\<rparr>) categories"


section \<open>The monthly trend\<close>

text \<open>
  \<^verbatim>\<open>getFullYear\<close> and \<^verbatim>\<open>getMonth\<close> read the local calendar, at the offset the environment
  gives. The calendar is the proleptic Gregorian one, computed from the day number.
\<close>

definition year_month :: "int \<Rightarrow> int \<times> int" where
  "year_month days =
     (let z = days + 719468;
          era = z div 146097;
          doe = z mod 146097;
          yoe = (doe - doe div 1460 + doe div 36524 - doe div 146096) div 365;
          y = yoe + era * 400;
          doy = doe - (365 * yoe + yoe div 4 - yoe div 100);
          mp = (5 * doy + 2) div 153;
          m = (if mp < 10 then mp + 3 else mp - 9)
      in (if m \<le> 2 then y + 1 else y, m))"

definition getFullYear :: "env \<Rightarrow> int \<Rightarrow> int" where
  "getFullYear ev t = fst (year_month ((t + tzOffsetMs ev t) div msPerDay))"

definition getMonth :: "env \<Rightarrow> int \<Rightarrow> int" where
  "getMonth ev t = snd (year_month ((t + tzOffsetMs ev t) div msPerDay)) - 1"

fun show_nat :: "nat \<Rightarrow> string" where
  "show_nat n =
     (if n < 10 then [char_of (48 + n)]
      else show_nat (n div 10) @ [char_of (48 + n mod 10)])"

declare show_nat.simps [simp del]

definition show_int :: "int \<Rightarrow> string" where
  "show_int i = (if i < 0 then CHR ''-'' # show_nat (nat (- i)) else show_nat (nat i))"

definition padStart2 :: "string \<Rightarrow> string" where
  "padStart2 s = replicate (2 - length s) (CHR ''0'') @ s"

definition monthKey :: "env \<Rightarrow> int \<Rightarrow> string" where
  "monthKey ev t =
     show_int (getFullYear ev t) @ ''-'' @ padStart2 (show_int (getMonth ev t + 1))"

definition byMonth :: "env \<Rightarrow> Expense list \<Rightarrow> (string \<times> number) list" where
  "byMonth ev es =
     foldl (\<lambda>m e. let k = monthKey ev (date e)
                  in map_set m k (fadd (coalesce (map_get m k) (Fin 0)) (amount e))) [] es"

record trend_point =
  key :: string
  trend_amount :: number
  trend_label :: string

text \<open>
  \<^verbatim>\<open>Array.prototype.sort\<close> with a comparator is a stable comparison sort. On elements
  that the comparator orders strictly, every such sort returns the list this insertion
  sort returns.
\<close>

fun insert_by :: "('a \<Rightarrow> 'a \<Rightarrow> int) \<Rightarrow> 'a \<Rightarrow> 'a list \<Rightarrow> 'a list" where
  "insert_by cmp x [] = [x]"
| "insert_by cmp x (y # ys) =
     (if cmp x y < 0 then x # y # ys else y # insert_by cmp x ys)"

definition sort_by :: "('a \<Rightarrow> 'a \<Rightarrow> int) \<Rightarrow> 'a list \<Rightarrow> 'a list" where
  "sort_by cmp xs = foldl (\<lambda>acc x. insert_by cmp x acc) [] xs"

definition compare_keys :: "trend_point \<Rightarrow> trend_point \<Rightarrow> int" where
  "compare_keys a b = (if key a < key b then - 1 else 1)"

definition trend :: "env \<Rightarrow> Expense list \<Rightarrow> trend_point list" where
  "trend ev es =
     sort_by compare_keys
       (map (\<lambda>(k, a). \<lparr>key = k, trend_amount = a, trend_label = monthLabel ev k\<rparr>)
          (byMonth ev es))"

section \<open>Adding an expense\<close>

text \<open>
  \<^verbatim>\<open>Number(string)\<close>: white space trimmed, the empty string is \<open>0\<close>; an unsigned binary,
  octal or hexadecimal integer literal; or a decimal literal with an optional sign,
  fraction and exponent, or \<^verbatim>\<open>Infinity\<close>; anything else is \<^verbatim>\<open>NaN\<close>. The value is rounded
  to binary64.
\<close>

definition isDigit :: "char \<Rightarrow> bool" where
  "isDigit c = (48 \<le> (of_char c :: nat) \<and> (of_char c :: nat) \<le> 57)"

definition digitVal :: "char \<Rightarrow> nat" where
  "digitVal c =
     (let n = (of_char c :: nat)
      in if 48 \<le> n \<and> n \<le> 57 then n - 48
         else if 97 \<le> n \<and> n \<le> 102 then n - 87
         else if 65 \<le> n \<and> n \<le> 70 then n - 55
         else 36)"

definition digitsValue :: "nat \<Rightarrow> string \<Rightarrow> nat" where
  "digitsValue b ds = foldl (\<lambda>a c. b * a + digitVal c) 0 ds"

definition pow10 :: "int \<Rightarrow> rat" where
  "pow10 e = (if 0 \<le> e then 10 ^ nat e else 1 / 10 ^ nat (- e))"

definition parse_digits :: "string \<Rightarrow> int option" where
  "parse_digits ds =
     (if ds \<noteq> [] \<and> list_all isDigit ds then Some (int (digitsValue 10 ds)) else None)"

definition parse_exponent :: "string \<Rightarrow> int option" where
  "parse_exponent r =
     (case r of [] \<Rightarrow> Some 0
      | c # ds \<Rightarrow>
          if c = CHR ''e'' \<or> c = CHR ''E''
          then (case ds of [] \<Rightarrow> None
                | s # ds' \<Rightarrow>
                    if s = CHR ''+'' then parse_digits ds'
                    else if s = CHR ''-'' then map_option uminus (parse_digits ds')
                    else parse_digits ds)
          else None)"

definition parse_unsigned :: "string \<Rightarrow> rat option" where
  "parse_unsigned s =
     (let ip = takeWhile isDigit s;
          r1 = dropWhile isDigit s;
          fp = (case r1 of [] \<Rightarrow> []
                | c # r \<Rightarrow> if c = CHR ''.'' then takeWhile isDigit r else []);
          r2 = (case r1 of [] \<Rightarrow> []
                | c # r \<Rightarrow> if c = CHR ''.'' then dropWhile isDigit r else r1)
      in if ip = [] \<and> fp = [] then None
         else (case parse_exponent r2 of None \<Rightarrow> None
               | Some ex \<Rightarrow>
                   Some ((of_nat (digitsValue 10 ip)
                          + of_nat (digitsValue 10 fp) / 10 ^ length fp) * pow10 ex)))"

definition parse_radix :: "string \<Rightarrow> nat option" where
  "parse_radix s =
     (case s of
        z # p # ds \<Rightarrow>
          (let b = (if p = CHR ''x'' \<or> p = CHR ''X'' then 16
                    else if p = CHR ''o'' \<or> p = CHR ''O'' then 8
                    else if p = CHR ''b'' \<or> p = CHR ''B'' then 2 else (0::nat))
           in if z = CHR ''0'' \<and> b \<noteq> 0 \<and> ds \<noteq> [] \<and> list_all (\<lambda>c. digitVal c < b) ds
              then Some (digitsValue b ds) else None)
      | _ \<Rightarrow> None)"

definition Number_of_string :: "string \<Rightarrow> number" where
  "Number_of_string s =
     (let t = trim s
      in if t = [] then Fin 0
         else (case parse_radix t of
                 Some n \<Rightarrow> rnd (of_nat n)
               | None \<Rightarrow>
                   (let neg = (hd t = CHR ''-'');
                        r = (if hd t = CHR ''-'' \<or> hd t = CHR ''+'' then tl t else t)
                    in if r = ''Infinity'' then (if neg then NInf else PInf)
                       else (case parse_unsigned r of
                               None \<Rightarrow> NaN
                             | Some q \<Rightarrow> rnd (if neg then - q else q)))))"

text \<open>
  \<^verbatim>\<open>Number(x.toFixed(2))\<close>: below \<open>10^21\<close> the nearest multiple of a hundredth, the
  larger magnitude of two equally near ones, read back as a number; from \<open>10^21\<close> on
  \<^verbatim>\<open>toFixed\<close> prints the number itself.
\<close>

definition toFixed2 :: "number \<Rightarrow> number" where
  "toFixed2 a =
     (case a of
        Fin x \<Rightarrow>
          if \<bar>x\<bar> < 10 ^ 21
          then rnd (sgn x * of_int \<lfloor>\<bar>x\<bar> * 100 + 1 / 2\<rfloor> / 100)
          else Fin x
      | _ \<Rightarrow> a)"

record form_state =
  form_label :: string
  form_amount :: string
  form_category :: ExpenseCategory
  form_frequency :: ExpenseFrequency
  form_date :: date_input
  form_notes :: string

text \<open>
  The state \<^verbatim>\<open>handleSubmit\<close> reads and writes: the expenses of the dashboard and the
  form, the error and the modal flag of \<^verbatim>\<open>AddExpenseForm\<close>.
\<close>

record component =
  expenses :: "Expense list"
  form :: form_state
  error_message :: "string option"
  is_open :: bool

datatype exception = RangeError

definition handleAddExpense :: "Expense \<Rightarrow> Expense list \<Rightarrow> Expense list" where
  "handleAddExpense expense prev = expense # prev"

text \<open>
  \<open>uuid\<close> is the result of \<^verbatim>\<open>crypto.randomUUID()\<close>. \<^verbatim>\<open>toISOString\<close> of an invalid date, as
  an empty date field parses to, throws a \<^verbatim>\<open>RangeError\<close>, before any state is set.
\<close>

definition handleSubmit :: "env \<Rightarrow> string \<Rightarrow> component \<Rightarrow> exception + component" where
  "handleSubmit ev uuid st =
     (let parsedAmount = Number_of_string (form_amount (form st))
      in if isNaN parsedAmount \<or> js_le parsedAmount (Fin 0)
         then Inr (st\<lparr>error_message := Some ''Please enter a valid amount greater than 0.''\<rparr>)
         else (case newDate ev (form_date (form st)) of
                 None \<Rightarrow> Inl RangeError
               | Some t \<Rightarrow>
                   (let newExpense =
                          \<lparr>expense_id = uuid,
                           label = (if trim (form_label (form st)) = [] then ''Untitled expense''
                                    else trim (form_label (form st))),
                           amount = toFixed2 parsedAmount,
                           category = form_category (form st),
                           date = t,
                           frequency = form_frequency (form st),
                           expense_notes = (if trim (form_notes (form st)) = [] then None
                                            else Some (trim (form_notes (form st))))\<rparr>
                    in Inr (st\<lparr>expenses := handleAddExpense newExpense (expenses st),
                               form := (form st)\<lparr>form_label := [], form_amount := [],
                                                  form_notes := []\<rparr>,
                               error_message := None,
                               is_open := False\<rparr>))))"


section \<open>Sample data\<close>

text \<open>
  Three of the seed expenses, dated back from 2024-03-10T15:00:00Z; V8 in UTC and in a
  time zone five hours behind UTC; and filters and forms used to instantiate the theorems
  below. Day 19792 is 2024-03-10 and day 2932897 is 10000-01-01; the taxi is stamped
  2024-03-10T03:00:00Z.
\<close>

definition sample_rent :: Expense where
  "sample_rent =
     \<lparr>expense_id = ''e1'', label = ''Rent'', amount = Fin 1800, category = Housing,
      date = 1710082800000, frequency = Recurring,
      expense_notes = Some ''Paid on the 1st''\<rparr>"

definition sample_gym :: Expense where
  "sample_gym =
     \<lparr>expense_id = ''e2'', label = ''Gym Membership'', amount = Fin 65, category = Health,
      date = 1708354800000, frequency = Recurring, expense_notes = None\<rparr>"

definition sample_movie :: Expense where
  "sample_movie =
     \<lparr>expense_id = ''e3'', label = ''Movie Night'', amount = Fin (109 / 2),
      category = Entertainment, date = 1709910000000, frequency = OneTime,
      expense_notes = None\<rparr>"

definition sample_expenses :: "Expense list" where
  "sample_expenses = [sample_rent, sample_gym, sample_movie]"

definition utc_env :: env where
  "utc_env =
     \<lparr>tzOffsetMs = (\<lambda>t. 0), monthLabel = (\<lambda>k. k),
      fallbackParse = (\<lambda>d. Some (d * msPerDay))\<rparr>"

definition utc_minus_5_env :: env where
  "utc_minus_5_env =
     \<lparr>tzOffsetMs = (\<lambda>t. - 18000000), monthLabel = (\<lambda>k. k),
      fallbackParse = (\<lambda>d. Some (d * msPerDay + 18000000))\<rparr>"

definition recurring_only :: Filters where
  "recurring_only = initial_filters\<lparr>frequency_filter := Only Recurring\<rparr>"

definition until_march_10 :: Filters where
  "until_march_10 = initial_filters\<lparr>endDate := DateOnly 19792\<rparr>"

definition until_year_10000 :: Filters where
  "until_year_10000 = initial_filters\<lparr>endDate := DateOnly 2932897\<rparr>"

definition year_10000_form :: component where
  "year_10000_form =
     \<lparr>expenses = [],
      form = \<lparr>form_label = ''Time capsule'', form_amount = ''12'', form_category = Other,
              form_frequency = OneTime, form_date = DateOnly 2932897, form_notes = []\<rparr>,
      error_message = None, is_open = True\<rparr>"

definition year_10000_expense :: Expense where
  "year_10000_expense =
     \<lparr>expense_id = ''id'', label = ''Time capsule'', amount = Fin 12, category = Other,
      date = 253402318800000, frequency = OneTime, expense_notes = None\<rparr>"

definition late_evening_expense :: Expense where
  "late_evening_expense =
     \<lparr>expense_id = ''e4'', label = ''Taxi'', amount = Fin 30, category = Transportation,
      date = 1710039600000, frequency = OneTime, expense_notes = None\<rparr>"

definition minus_five_form :: component where
  "minus_five_form =
     \<lparr>expenses = sample_expenses,
      form = \<lparr>form_label = ''Refund'', form_amount = ''-5'', form_category = Housing,
              form_frequency = OneTime, form_date = DateOnly 19792, form_notes = []\<rparr>,
      error_message = None, is_open = True\<rparr>"

definition decimal_a :: Expense where
  "decimal_a =
     \<lparr>expense_id = ''d1'', label = ''Bus'', amount = rnd (1 / 10), category = Housing,
      date = 1710082800000, frequency = OneTime, expense_notes = None\<rparr>"

definition decimal_b :: Expense where
  "decimal_b =
     \<lparr>expense_id = ''d2'', label = ''Gum'', amount = rnd (2 / 10), category = Food,
      date = 1710082800000, frequency = OneTime, expense_notes = None\<rparr>"

definition decimal_c :: Expense where
  "decimal_c =
     \<lparr>expense_id = ''d3'', label = ''Tea'', amount = rnd (3 / 10), category = Food,
      date = 1710082800000, frequency = OneTime, expense_notes = None\<rparr>"





section \<open>Predicates of the statements\<close>

text \<open>
  The start of a day in UTC, and in the local time of an environment whose offset does
  not change around it; a number between 0 and 100 inclusive; an amount that is not
  negative; an amount that is a whole number; and the exact sum of finite numbers.
\<close>

definition utcStartOfDay :: "int \<Rightarrow> int" where
  "utcStartOfDay d = d * msPerDay"

definition localStartOfDay :: "env \<Rightarrow> int \<Rightarrow> int" where
  "localStartOfDay ev d = d * msPerDay - tzOffsetMs ev (d * msPerDay)"


definition non_negative :: "number \<Rightarrow> bool" where
  "non_negative a = js_le (Fin 0) a"

definition whole_amount :: "number \<Rightarrow> bool" where
  "whole_amount a = (case a of Fin x \<Rightarrow> 0 \<le> x \<and> x = of_int \<lfloor>x\<rfloor> | _ \<Rightarrow> False)"

definition exact_value :: "number \<Rightarrow> rat" where
  "exact_value a = (case a of Fin x \<Rightarrow> x | _ \<Rightarrow> 0)"

definition exact_sum :: "number list \<Rightarrow> rat" where
  "exact_sum xs = sum_list (map exact_value xs)"


text \<open>
  The spans in exact integer arithmetic: the ceiling of a quotient of integers with a
  positive divisor is \<open>- ((- a) div b)\<close>.
\<close>

definition span_ms :: "Expense list \<Rightarrow> int" where
  "span_ms es = Max (date ` set es) - Min (date ` set es)"

definition exact_spanDays :: "Expense list \<Rightarrow> int" where
  "exact_spanDays es = max 1 (- ((- span_ms es) div 86400000))"

definition exact_spanMonths :: "Expense list \<Rightarrow> int" where
  "exact_spanMonths es = max 1 (- ((- exact_spanDays es) div 30))"

text \<open>
  The error of floating-point summation: the unit roundoff \<open>2^-53\<close>, the factor
  \<open>(1 + 2^-53)^k - 1\<close> by which \<open>k\<close> roundings can move a sum, and the smallest normal
  number \<open>2^-1022\<close>, below which the error of a rounding is absolute.
\<close>

definition unit_roundoff :: rat where
  "unit_roundoff = 1 / 2 ^ 53"

definition growth :: "nat \<Rightarrow> rat" where
  "growth k = (1 + unit_roundoff) ^ k - 1"

definition smallest_normal :: rat where
  "smallest_normal = 1 / 2 ^ 1022"

section \<open>Properties of the rounding\<close>

lemma pow2_powi: "pow2 e = 2 powi e"
  by (simp add: pow2_def power_int_def inverse_eq_divide power_one_over)

lemma pow2_pos: "0 < pow2 e"
  by (simp add: pow2_powi zero_less_power_int)

lemma pow2_add: "pow2 (a + b) = pow2 a * pow2 b"
  by (simp add: pow2_powi power_int_add)

lemma pow2_mono: "a \<le> b \<Longrightarrow> pow2 a \<le> pow2 b"
  by (simp add: pow2_powi power_int_increasing)

lemma pow2_strict_mono: "a < b \<Longrightarrow> pow2 a < pow2 b"
  by (simp add: pow2_powi power_int_strict_increasing)

lemma pow2_less_cancel: "pow2 a < pow2 b \<Longrightarrow> a < b"
  using pow2_mono[of b a] by (cases "a < b") auto

lemma pow2_nat: "0 \<le> e \<Longrightarrow> pow2 e = 2 ^ nat e"
  by (simp add: pow2_def)

lemma pow2_int: "0 \<le> e \<Longrightarrow> pow2 e = of_int (2 ^ nat e)"
  by (simp add: pow2_def)

lemma pow2_neg: "pow2 (- e) = 1 / pow2 e"
  by (simp add: pow2_powi power_int_minus_divide)

lemma ilog2_bounds:
  assumes "0 < x"
  shows "pow2 (ilog2 x) \<le> x \<and> x < pow2 (ilog2 x + 1)"
proof (cases "1 \<le> x")
  case True
  define n where "n = \<lfloor>x\<rfloor>"
  have n: "0 < n" using True by (simp add: n_def)
  have b1: "1 \<le> bitlen n" using n by (simp add: bitlen_alt_def)
  from bitlen_bounds[OF n] have lo: "2 ^ nat (bitlen n - 1) \<le> n" and hi: "n < 2 ^ nat (bitlen n)"
    by auto
  have il: "ilog2 x = bitlen n - 1" using True by (simp add: ilog2_def n_def)
  have "(of_int (2 ^ nat (bitlen n - 1)) :: rat) \<le> of_int n"
    using lo by (simp only: of_int_le_iff)
  also have "\<dots> \<le> x" by (simp add: n_def)
  finally have 1: "pow2 (ilog2 x) \<le> x"
    using b1 by (simp add: il pow2_int)
  have "n + 1 \<le> 2 ^ nat (bitlen n)" using hi by simp
  then have "(of_int (n + 1) :: rat) \<le> of_int (2 ^ nat (bitlen n))"
    by (simp only: of_int_le_iff)
  moreover have "x < of_int (n + 1)" unfolding n_def by linarith
  ultimately have 2: "x < pow2 (ilog2 x + 1)"
    using b1 by (simp add: il pow2_int)
  from 1 2 show ?thesis by simp
next
  case False
  then have x1: "x < 1" by simp
  define y where "y = 1 / x"
  have y1: "1 < y" using assms x1 by (simp add: y_def)
  define n where "n = \<lceil>y\<rceil>"
  have n2: "2 \<le> n" unfolding n_def using y1 by linarith
  then have n1: "0 < n - 1" by simp
  define k where "k = bitlen (n - 1)"
  have k1: "1 \<le> k" using n1 by (simp add: k_def bitlen_alt_def)
  from bitlen_bounds[OF n1] have lo: "2 ^ nat (k - 1) \<le> n - 1" and hi: "n - 1 < 2 ^ nat k"
    by (auto simp: k_def)
  have il: "ilog2 x = - k" using False by (simp add: ilog2_def n_def y_def k_def)
  have "y \<le> of_int n" by (simp add: n_def)
  also have "(of_int n :: rat) \<le> of_int (2 ^ nat k)"
    using hi by (simp only: of_int_le_iff)
  also have "\<dots> = pow2 k" using k1 by (simp add: pow2_int)
  finally have "y \<le> pow2 k" .
  then have "1 / pow2 k \<le> 1 / y"
    using y1 by (intro divide_left_mono) (auto simp: pow2_pos)
  then have 1: "pow2 (ilog2 x) \<le> x"
    using assms by (simp add: il pow2_neg y_def)
  have "(of_int (2 ^ nat (k - 1)) :: rat) \<le> of_int (n - 1)"
    using lo by (simp only: of_int_le_iff)
  also have "(of_int (n - 1) :: rat) < y" unfolding n_def by linarith
  finally have "pow2 (k - 1) < y" using k1 by (simp add: pow2_int)
  then have "1 / y < 1 / pow2 (k - 1)"
    by (intro divide_strict_left_mono) (auto simp: pow2_pos intro: mult_pos_pos less_trans[OF pow2_pos])
  then have 2: "x < pow2 (ilog2 x + 1)"
    using assms pow2_neg[of "k - 1"] by (simp add: il y_def)
  from 1 2 show ?thesis by simp
qed

lemma ilog2_unique:
  assumes "pow2 e \<le> x" "x < pow2 (e + 1)"
  shows "ilog2 x = e"
proof -
  have x: "0 < x" using assms(1) pow2_pos[of e] by linarith
  from ilog2_bounds[OF x] have b: "pow2 (ilog2 x) \<le> x" "x < pow2 (ilog2 x + 1)" by auto
  have "pow2 e < pow2 (ilog2 x + 1)" using assms(1) b(2) by linarith
  then have 1: "e < ilog2 x + 1" by (rule pow2_less_cancel)
  have "pow2 (ilog2 x) < pow2 (e + 1)" using assms(2) b(1) by linarith
  then have 2: "ilog2 x < e + 1" by (rule pow2_less_cancel)
  from 1 2 show ?thesis by simp
qed

lemma round_even_of_int: "round_even (of_int n) = n"
  by (simp add: round_even_def)

lemma round_even_cases: "round_even y = \<lfloor>y\<rfloor> \<or> round_even y = \<lfloor>y\<rfloor> + 1"
  by (simp add: round_even_def Let_def)

lemma round_even_near:
  assumes "\<bar>y - of_int m\<bar> < 1 / 2"
  shows "round_even y = m"
proof (cases "of_int m \<le> y")
  case True
  have "\<lfloor>y\<rfloor> = m" using True assms by (intro floor_unique) (auto simp: abs_less_iff)
  then show ?thesis using True assms by (simp add: round_even_def Let_def abs_less_iff)
next
  case False
  have "\<lfloor>y\<rfloor> = m - 1" using False assms by (intro floor_unique) (auto simp: abs_less_iff)
  then show ?thesis using False assms by (simp add: round_even_def Let_def abs_less_iff)
qed

lemma round_even_tie_up:
  assumes "y = of_int m - 1 / 2" "even m"
  shows "round_even y = m"
proof -
  have "\<lfloor>y\<rfloor> = m - 1" using assms by (intro floor_unique) auto
  then show ?thesis using assms by (simp add: round_even_def Let_def)
qed

lemma round_even_tie_down:
  assumes "y = of_int m + 1 / 2" "even m"
  shows "round_even y = m"
proof -
  have "\<lfloor>y\<rfloor> = m" using assms by (intro floor_unique) auto
  then show ?thesis using assms by (simp add: round_even_def Let_def)
qed

lemma round_even_mono:
  assumes "x \<le> y"
  shows "round_even x \<le> round_even y"
proof (cases "\<lfloor>x\<rfloor> = \<lfloor>y\<rfloor>")
  case True
  then show ?thesis using assms by (auto simp: round_even_def Let_def)
next
  case False
  then have "\<lfloor>x\<rfloor> + 1 \<le> \<lfloor>y\<rfloor>" using floor_mono[OF assms] by simp
  then show ?thesis
    using round_even_cases[of x] round_even_cases[of y] by auto
qed

lemma round_even_nonneg: "0 \<le> y \<Longrightarrow> 0 \<le> round_even y"
  using round_even_mono[of 0 y] round_even_of_int[of 0] by simp

lemma round_even_minus: "round_even (- y) = - round_even y"
proof (cases "y = of_int \<lfloor>y\<rfloor>")
  case True
  then obtain n where "y = of_int n" by blast
  then show ?thesis
    using round_even_of_int[of n] round_even_of_int[of "- n"] by simp
next
  case False
  then have fl: "\<lfloor>- y\<rfloor> = - \<lfloor>y\<rfloor> - 1"
    by (intro floor_unique) (auto simp: less_le, linarith+)
  show ?thesis
    using False unfolding round_even_def Let_def fl
    by (auto simp: field_simps)
qed

lemma rnd_unfold:
  assumes "x \<noteq> 0"
  shows "rnd x =
    (let r = of_int (round_even (x / pow2 (max (ilog2 \<bar>x\<bar>) (- 1022) - 52)))
               * pow2 (max (ilog2 \<bar>x\<bar>) (- 1022) - 52)
     in if pow2 1024 \<le> r then PInf else if r \<le> - pow2 1024 then NInf else Fin r)"
  using assms by (simp add: rnd_def Let_def)

lemma pow2_diff_int:
  assumes "a \<le> b"
  shows "pow2 b / pow2 a = of_int (2 ^ nat (b - a))"
proof -
  have "pow2 b = pow2 (b - a) * pow2 a"
    using pow2_add[of "b - a" a] by simp
  then show ?thesis
    using assms pow2_pos[of a] by (simp add: pow2_int)
qed

lemma rnd_exact_bounded:
  assumes x: "x = of_int m * pow2 k" and m: "\<bar>m\<bar> < 2 ^ 53" and k: "- 1074 \<le> k"
    and r: "\<bar>x\<bar> < pow2 1024"
  shows "rnd x = Fin x"
proof (cases "x = 0")
  case True
  then show ?thesis by (simp add: rnd_def)
next
  case False
  define e where "e = max (ilog2 \<bar>x\<bar>) (- 1022)"
  have ax: "\<bar>x\<bar> = of_int \<bar>m\<bar> * pow2 k"
    using pow2_pos[of k] by (simp add: x abs_mult)
  have "(of_int \<bar>m\<bar> :: rat) < of_int (2 ^ 53)"
    using m by (simp only: of_int_less_iff)
  then have "\<bar>x\<bar> < of_int (2 ^ 53) * pow2 k"
    unfolding ax using pow2_pos[of k] by (intro mult_strict_right_mono)
  also have "\<dots> = pow2 (53 + k)"
    by (simp add: pow2_add pow2_nat)
  finally have ub: "\<bar>x\<bar> < pow2 (53 + k)" .
  have xp: "0 < \<bar>x\<bar>" using False by simp
  from ilog2_bounds[OF xp] ub have "pow2 (ilog2 \<bar>x\<bar>) < pow2 (53 + k)" by linarith
  then have "ilog2 \<bar>x\<bar> < 53 + k" by (rule pow2_less_cancel)
  then have ek: "e - 52 \<le> k" using k by (simp add: e_def)
  have "x / pow2 (e - 52) = of_int m * (pow2 k / pow2 (e - 52))"
    by (simp add: x)
  also have "\<dots> = of_int (m * 2 ^ nat (k - (e - 52)))"
    by (simp add: pow2_diff_int[OF ek])
  finally have q: "x / pow2 (e - 52) = of_int (m * 2 ^ nat (k - (e - 52)))" .
  have rr: "of_int (round_even (x / pow2 (e - 52))) * pow2 (e - 52) = x"
    unfolding q round_even_of_int
    using q pow2_pos[of "e - 52"] by (simp add: field_simps)
  from r have "\<not> pow2 1024 \<le> x" "\<not> x \<le> - pow2 1024" by (auto simp: abs_less_iff)
  then show ?thesis
    using False rr by (simp add: rnd_unfold e_def[symmetric] Let_def)
qed

lemma rnd_exact:
  assumes x: "x = of_int m * pow2 k" and m: "\<bar>m\<bar> < 2 ^ 53" and k: "- 1074 \<le> k" "k \<le> 970"
  shows "rnd x = Fin x"
proof -
  have ax: "\<bar>x\<bar> = of_int \<bar>m\<bar> * pow2 k"
    using pow2_pos[of k] by (simp add: x abs_mult)
  have "(of_int \<bar>m\<bar> :: rat) < of_int (2 ^ 53)"
    using m by (simp only: of_int_less_iff)
  then have "\<bar>x\<bar> < of_int (2 ^ 53) * pow2 k"
    unfolding ax using pow2_pos[of k] by (intro mult_strict_right_mono)
  also have "\<dots> = pow2 (53 + k)"
    by (simp add: pow2_add pow2_nat)
  also have "\<dots> \<le> pow2 1024" using k by (intro pow2_mono) simp
  finally have "\<bar>x\<bar> < pow2 1024" .
  with x m k(1) show ?thesis by (rule rnd_exact_bounded)
qed

lemma rnd_int:
  assumes "\<bar>n\<bar> \<le> 2 ^ 53"
  shows "rnd (of_int n) = Fin (of_int n)"
proof (cases "\<bar>n\<bar> < 2 ^ 53")
  case True
  then show ?thesis by (intro rnd_exact[where m = n and k = 0]) (simp_all add: pow2_def)
next
  case False
  with assms have "\<bar>n\<bar> = 2 ^ 53" by simp
  then have "n = 2 ^ 53 \<or> n = - (2 ^ 53)" by (simp add: abs_if split: if_splits)
  then show ?thesis
  proof
    assume n: "n = 2 ^ 53"
    show ?thesis by (intro rnd_exact[where m = 1 and k = 53]) (simp_all add: pow2_def n)
  next
    assume n: "n = - (2 ^ 53)"
    show ?thesis by (intro rnd_exact[where m = "- 1" and k = 53]) (simp_all add: pow2_def n)
  qed
qed

lemma rnd_nonneg:
  assumes "0 \<le> x"
  shows "rnd x = PInf \<or> (\<exists>y. rnd x = Fin y \<and> 0 \<le> y)"
proof (cases "x = 0")
  case True
  then show ?thesis by (simp add: rnd_def)
next
  case False
  define u where "u = pow2 (max (ilog2 \<bar>x\<bar>) (- 1022) - 52)"
  have u: "0 < u" by (simp add: u_def pow2_pos)
  have "0 \<le> x / u" using assms u by simp
  then have "0 \<le> round_even (x / u)" by (rule round_even_nonneg)
  then have r: "0 \<le> of_int (round_even (x / u)) * u" using u by simp
  have "- pow2 1024 < 0" using pow2_pos[of 1024] by simp
  with r have "\<not> of_int (round_even (x / u)) * u \<le> - pow2 1024" by linarith
  then show ?thesis
    using False r by (simp add: rnd_unfold u_def[symmetric] Let_def)
qed

lemma rnd_le_int:
  assumes x0: "0 \<le> x" and xc: "x \<le> of_int c" and c: "c < 2 ^ 53"
  shows "\<exists>y. rnd x = Fin y \<and> 0 \<le> y \<and> y \<le> of_int c"
proof (cases "x = 0")
  case True
  then show ?thesis using xc by (simp add: rnd_def)
next
  case False
  then have xp: "0 < \<bar>x\<bar>" by simp
  define e where "e = max (ilog2 \<bar>x\<bar>) (- 1022)"
  define u where "u = pow2 (e - 52)"
  have u: "0 < u" by (simp add: u_def pow2_pos)
  have "(of_int c :: rat) < of_int (2 ^ 53)" using c by (simp only: of_int_less_iff)
  then have "\<bar>x\<bar> < pow2 53" using x0 xc by (simp add: pow2_nat)
  with ilog2_bounds[OF xp] have "pow2 (ilog2 \<bar>x\<bar>) < pow2 53" by linarith
  then have "ilog2 \<bar>x\<bar> < 53" by (rule pow2_less_cancel)
  then have e52: "e - 52 \<le> 0" by (simp add: e_def)
  have "1 / u = pow2 0 / pow2 (e - 52)" by (simp add: u_def pow2_def)
  also have "\<dots> = of_int (2 ^ nat (0 - (e - 52)))" by (rule pow2_diff_int[OF e52])
  finally have iu: "1 / u = of_int (2 ^ nat (0 - (e - 52)))" .
  have "of_int c / u = of_int c * (1 / u)" by simp
  also have "\<dots> = of_int (c * 2 ^ nat (0 - (e - 52)))" by (simp add: iu)
  finally have cu: "of_int c / u = of_int (c * 2 ^ nat (0 - (e - 52)))" .
  have "x / u \<le> of_int c / u" using xc u by (simp add: divide_right_mono)
  then have "round_even (x / u) \<le> round_even (of_int c / u)" by (rule round_even_mono)
  also have "\<dots> = c * 2 ^ nat (0 - (e - 52))" unfolding cu by (rule round_even_of_int)
  finally have "(of_int (round_even (x / u)) :: rat) \<le> of_int (c * 2 ^ nat (0 - (e - 52)))"
    by (simp only: of_int_le_iff)
  then have "of_int (round_even (x / u)) * u \<le> of_int (c * 2 ^ nat (0 - (e - 52))) * u"
    using u by (intro mult_right_mono) auto
  also have "\<dots> = of_int c" using cu u by (simp add: field_simps)
  finally have rc: "of_int (round_even (x / u)) * u \<le> of_int c" .
  have "0 \<le> x / u" using x0 u by simp
  then have "0 \<le> round_even (x / u)" by (rule round_even_nonneg)
  then have r0: "0 \<le> of_int (round_even (x / u)) * u" using u by simp
  have "(of_int c :: rat) < pow2 1024"
    using \<open>(of_int c :: rat) < of_int (2 ^ 53)\<close> pow2_mono[of 53 1024] by (simp add: pow2_nat)
  with rc have n1: "\<not> pow2 1024 \<le> of_int (round_even (x / u)) * u" by linarith
  have "- pow2 1024 < 0" using pow2_pos[of 1024] by simp
  with r0 have n2: "\<not> of_int (round_even (x / u)) * u \<le> - pow2 1024" by linarith
  show ?thesis
    using False rc r0 n1 n2
    by (simp add: rnd_unfold e_def[symmetric] u_def[symmetric] Let_def)
qed

lemma rnd_eqI:
  assumes "pow2 e \<le> \<bar>x\<bar>" "\<bar>x\<bar> < pow2 (e + 1)" "- 1022 \<le> e"
    and "round_even (x / pow2 (e - 52)) = m"
    and "\<bar>of_int m * pow2 (e - 52)\<bar> < pow2 1024"
  shows "rnd x = Fin (of_int m * pow2 (e - 52))"
proof -
  have x: "x \<noteq> 0" using assms(1) pow2_pos[of e] by auto
  have "ilog2 \<bar>x\<bar> = e" using assms(1,2) by (rule ilog2_unique)
  then have e: "max (ilog2 \<bar>x\<bar>) (- 1022) = e" using assms(3) by simp
  from assms(5) have "\<not> pow2 1024 \<le> of_int m * pow2 (e - 52)"
    "\<not> of_int m * pow2 (e - 52) \<le> - pow2 1024"
    by (auto simp: abs_less_iff)
  then show ?thesis
    using x assms(4) by (simp add: rnd_unfold e Let_def)
qed

lemma round_even_error: "\<bar>of_int (round_even y) - y\<bar> \<le> 1 / 2"
proof -
  have "of_int \<lfloor>y\<rfloor> \<le> y" "y < of_int \<lfloor>y\<rfloor> + 1" by linarith+
  then show ?thesis
    by (auto simp: round_even_def Let_def abs_le_iff)
qed

lemma rnd_error:
  assumes "x \<noteq> 0" "rnd x = Fin y"
  shows "\<bar>y - x\<bar> \<le> pow2 (max (ilog2 \<bar>x\<bar>) (- 1022) - 53)"
proof -
  define u where "u = pow2 (max (ilog2 \<bar>x\<bar>) (- 1022) - 52)"
  have u: "0 < u" by (simp add: u_def pow2_pos)
  have y: "y = of_int (round_even (x / u)) * u"
    using assms by (simp add: rnd_unfold u_def[symmetric] Let_def split: if_splits)
  have "y - x = (of_int (round_even (x / u)) - x / u) * u"
    using u by (simp add: y field_simps)
  then have "\<bar>y - x\<bar> = \<bar>of_int (round_even (x / u)) - x / u\<bar> * u"
    using u by (simp add: abs_mult)
  also have "\<dots> \<le> (1 / 2) * u"
    using round_even_error[of "x / u"] u by (intro mult_right_mono) auto
  also have "\<dots> = pow2 (max (ilog2 \<bar>x\<bar>) (- 1022) - 53)"
    using pow2_add[of "max (ilog2 \<bar>x\<bar>) (- 1022) - 53" 1] by (simp add: u_def pow2_def)
  finally show ?thesis .
qed


lemma ceiling_rnd_div:
  assumes n: "0 \<le> n" "n < 2 ^ 53" and m: "0 < m" "m < 2 ^ 53"
  shows "\<exists>y. rnd (of_int n / of_int m) = Fin y \<and> \<lceil>y\<rceil> = \<lceil>(of_int n / of_int m :: rat)\<rceil>"
proof (cases "n = 0")
  case True
  then show ?thesis by (simp add: rnd_def)
next
  case False
  define q :: rat where "q = of_int n / of_int m"
  define k where "k = \<lceil>q\<rceil>"
  have np: "0 < n" using n False by simp
  have qp: "0 < q" using np m by (simp add: q_def)
  have mr: "(0 :: rat) < of_int m" using m by simp
  have "(1 :: rat) \<le> of_int m" using m by (simp add: int_one_le_iff_zero_less)
  then have "(of_int n :: rat) * 1 \<le> of_int n * of_int m"
    using n by (intro mult_left_mono) auto
  then have "q \<le> of_int n" using mr by (simp add: q_def field_simps)
  then have "k \<le> n" unfolding k_def by (simp add: ceiling_le_iff)
  then have k53: "k < 2 ^ 53" using n by simp
  have qk: "q \<le> of_int k" "of_int k - 1 < q" unfolding k_def by linarith+
  from rnd_le_int[OF _ qk(1) k53] qp obtain y where
    y: "rnd q = Fin y" "0 \<le> y" "y \<le> of_int k" by auto
  have low: "of_int k - 1 < y"
  proof (cases "q = of_int k")
    case True
    have "\<bar>k\<bar> \<le> 2 ^ 53" using k53 qp True by simp
    from rnd_int[OF this] y True show ?thesis by simp
  next
    case False
    then have "q < of_int k" using qk by simp
    then have "of_int n < of_int k * (of_int m :: rat)"
      using mr by (simp add: q_def field_simps)
    then have "(of_int n :: rat) < of_int (k * m)" by simp
    then have "n < k * m" by (simp only: of_int_less_iff)
    moreover have "(of_int ((k - 1) * m) :: rat) < of_int n"
      using qk(2) mr by (simp add: q_def field_simps)
    then have "(k - 1) * m < n" by (simp only: of_int_less_iff)
    then have "(k - 1) * m + 1 \<le> n" by simp
    then have "(of_int ((k - 1) * m + 1) :: rat) \<le> of_int n" by (simp only: of_int_le_iff)
    then have "(of_int ((k - 1) * m + 1) :: rat) / of_int m \<le> of_int n / of_int m"
      using mr by (intro divide_right_mono) auto
    moreover have "(of_int ((k - 1) * m + 1) :: rat) / of_int m = of_int k - 1 + 1 / of_int m"
      using mr by (simp add: add_divide_distrib)
    ultimately have gap: "of_int k - 1 + 1 / of_int m \<le> q"
      by (simp only: q_def)
    define e where "e = max (ilog2 \<bar>q\<bar>) (- 1022)"
    have aq: "\<bar>q\<bar> = q" using qp by simp
    from ilog2_bounds[OF qp] have il: "pow2 (ilog2 q) \<le> q" by simp
    have "pow2 (ilog2 q) * of_int m \<le> of_int n"
      using il mr by (simp add: q_def field_simps)
    also have "(of_int n :: rat) < of_int (2 ^ 53)" using n by (simp only: of_int_less_iff)
    finally have "pow2 (ilog2 q) * of_int m < pow2 53" by (simp add: pow2_def)
    then have "pow2 (ilog2 q) < pow2 53 / of_int m" using mr by (simp add: field_simps)
    then have "pow2 (ilog2 q) * pow2 (- 53) < 1 / of_int m"
      using pow2_pos[of 53] by (simp add: pow2_neg field_simps)
    then have e1: "pow2 (ilog2 q - 53) < 1 / of_int m"
      using pow2_add[of "ilog2 q" "- 53"] by simp
    have "pow2 (- 1022 - 53) \<le> pow2 (- 53)" by (intro pow2_mono) simp
    also have "pow2 (- 53) < 1 / of_int m"
    proof -
      have "(of_int m :: rat) < of_int (2 ^ 53)" using m by (simp only: of_int_less_iff)
      then have "1 / (of_int (2 ^ 53) :: rat) < 1 / of_int m"
        using mr by (intro divide_strict_left_mono) auto
      then show ?thesis by (simp add: pow2_def)
    qed
    finally have e2: "pow2 (- 1022 - 53) < 1 / of_int m" .
    have err: "pow2 (e - 53) < 1 / of_int m"
      using e1 e2 by (simp add: e_def aq max_def)
    have "q \<noteq> 0" using qp by simp
    from rnd_error[OF this y(1)] have "\<bar>y - q\<bar> \<le> pow2 (e - 53)" by (simp add: e_def)
    then have "q - pow2 (e - 53) \<le> y" by (simp add: abs_le_iff)
    with gap err show ?thesis by linarith
  qed
  have "\<lceil>y\<rceil> = k" using low y(3) by (intro ceiling_unique) auto
  then show ?thesis using y(1) by (auto simp: q_def k_def)
qed

lemma floor_rat_numeral: "\<lfloor>numeral a / numeral b :: rat\<rfloor> = numeral a div numeral b"
  by (metis floor_divide_of_int_eq of_int_numeral)

lemmas eval_rnd = pow2_def round_even_def Let_def floor_rat_numeral


section \<open>The filter\<close>

text \<open>
  C4: for every sequence of records and every filters value, the output of the filter is
  a subsequence of the input: the retained records in their relative order.
\<close>

theorem filter_subseq: "subseq (filteredExpenses ev es f) es"
  by (simp add: filteredExpenses_def)

theorem filter_subseq_witness:
  "filteredExpenses utc_env sample_expenses recurring_only = [sample_rent, sample_gym]
   \<and> subseq [sample_rent, sample_gym] sample_expenses"
proof -
  have "filteredExpenses utc_env sample_expenses recurring_only = [sample_rent, sample_gym]"
    by (simp add: filteredExpenses_def sample_expenses_def recurring_only_def
        initial_filters_def matchesSearch_def matchesCategory_def matchesFrequency_def
        matchesStart_def matchesEnd_def trim_def toLowerCase_def
        sample_rent_def sample_gym_def sample_movie_def)
  with filter_subseq[of utc_env sample_expenses recurring_only] show ?thesis by simp
qed

text \<open>
  C5: with the initial filters (empty search, category and frequency \<^verbatim>\<open>'All'\<close>, both date
  fields empty) the filter returns its whole input, unchanged and in order.
\<close>

theorem filter_default: "filteredExpenses ev es initial_filters = es"
  by (simp add: filteredExpenses_def initial_filters_def matchesSearch_def matchesCategory_def
      matchesFrequency_def matchesStart_def matchesEnd_def trim_def toLowerCase_def)

theorem filter_default_witness:
  "filteredExpenses utc_env sample_expenses initial_filters = sample_expenses"
  using filter_default[of utc_env sample_expenses] by simp

lemma newDate_fourDigitYear:
  assumes "fourDigitYear d"
  shows "newDate ev (DateOnly d) = Some (utcStartOfDay d)"
proof -
  have "\<bar>d * msPerDay\<bar> \<le> 8640000000000000"
    using assms by (simp add: fourDigitYear_def msPerDay_def abs_le_iff)
  then show ?thesis using assms by (simp add: newDate.simps timeClip_def utcStartOfDay_def)
qed

lemma calendar_days:
  "year_month (- 719528) = (0, 1)"
  "year_month 2932896 = (9999, 12)"
  "year_month 2932897 = (10000, 1)"
  "year_month 19792 = (2024, 3)"
  by code_simp+

text \<open>
  C3 as stated fails for an end date whose year has more than four digits, which a date
  input yields: the bound is then what the engine makes of the string, and V8 makes it
  midnight in local time. Five hours behind UTC, the form dates an expense of 10000-01-01
  at 05:00 UTC of that day, which is later within the end day than its start, and the
  filter with the end date 10000-01-01 keeps the expense. The start of the day in local
  time is not the bound either: in the same environment the end date 2024-03-10 excludes
  an expense stamped 03:00 UTC of that day, two hours before the day starts there.
\<close>

theorem end_bound_counterexample:
  "map_sum id expenses (handleSubmit utc_minus_5_env ''id'' year_10000_form)
     = Inr [year_10000_expense]
   \<and> endDate until_year_10000 = DateOnly 2932897
   \<and> year_month 2932897 = (10000, 1)
   \<and> utcStartOfDay 2932897 < date year_10000_expense
   \<and> date year_10000_expense < utcStartOfDay (2932897 + 1)
   \<and> matchesEnd utc_minus_5_env until_year_10000 year_10000_expense
   \<and> filteredExpenses utc_minus_5_env [year_10000_expense] until_year_10000
       = [year_10000_expense]
   \<and> endDate until_march_10 = DateOnly 19792
   \<and> date late_evening_expense < localStartOfDay utc_minus_5_env 19792
   \<and> \<not> matchesEnd utc_minus_5_env until_march_10 late_evening_expense"
proof -
  have r: "rnd 12 = Fin 12" using rnd_int[of 12] by simp
  have n: "Number_of_string ''12'' = Fin 12"
    by (simp add: Number_of_string_def trim_def isWhiteSpace_def parse_radix_def
        parse_unsigned_def parse_exponent_def isDigit_def digitsValue_def digitVal_def
        pow10_def Let_def r)
  have t: "toFixed2 (Fin 12) = Fin 12" by (simp add: toFixed2_def floor_rat_numeral r)
  have d: "newDate utc_minus_5_env (DateOnly 2932897) = Some 253402318800000"
    by (simp add: newDate.simps utc_minus_5_env_def fourDigitYear_def timeClip_def
        msPerDay_def)
  have s: "map_sum id expenses (handleSubmit utc_minus_5_env ''id'' year_10000_form)
             = Inr [year_10000_expense]"
    by (simp add: handleSubmit_def year_10000_form_def year_10000_expense_def n t d isNaN_def
        js_le_def js_eq_def trim_def isWhiteSpace_def handleAddExpense_def)
  have m: "matchesEnd utc_minus_5_env until_year_10000 year_10000_expense"
    by (simp add: matchesEnd_def until_year_10000_def initial_filters_def d
        year_10000_expense_def)
  have f: "filteredExpenses utc_minus_5_env [year_10000_expense] until_year_10000
             = [year_10000_expense]"
    using m
    by (simp add: filteredExpenses_def until_year_10000_def initial_filters_def
        matchesSearch_def matchesCategory_def matchesFrequency_def matchesStart_def
        trim_def toLowerCase_def)
  have d': "newDate utc_minus_5_env (DateOnly 19792) = Some 1710028800000"
    by (simp add: newDate.simps fourDigitYear_def timeClip_def msPerDay_def)
  have m': "\<not> matchesEnd utc_minus_5_env until_march_10 late_evening_expense"
    by (simp add: matchesEnd_def until_march_10_def initial_filters_def d'
        late_evening_expense_def)
  have l: "date late_evening_expense < localStartOfDay utc_minus_5_env 19792"
    by (simp add: late_evening_expense_def localStartOfDay_def utc_minus_5_env_def
        msPerDay_def)
  show ?thesis
    using s m f m' l
    by (simp add: calendar_days until_year_10000_def until_march_10_def initial_filters_def
        utcStartOfDay_def msPerDay_def year_10000_expense_def)
qed

text \<open>
  C3, amended: when the end date is set to a date with a four-digit year (up to
  9999-12-31), in every environment the end bound accepts a record exactly when its time
  stamp is at most the start of the end day in UTC; a record stamped later within the end
  day fails the bound and is not in the filter's output.
\<close>

theorem end_bound:
  assumes "endDate f = DateOnly d" and "fourDigitYear d"
  shows "(matchesEnd ev f e \<longleftrightarrow> date e \<le> utcStartOfDay d)
       \<and> (utcStartOfDay d < date e \<and> date e < utcStartOfDay (d + 1) \<longrightarrow>
            \<not> matchesEnd ev f e \<and> e \<notin> set (filteredExpenses ev es f))"
proof -
  have "matchesEnd ev f e \<longleftrightarrow> date e \<le> utcStartOfDay d"
    using assms by (simp add: matchesEnd_def newDate_fourDigitYear)
  then show ?thesis by (auto simp: filteredExpenses_def)
qed

theorem end_bound_witness:
  "endDate until_march_10 = DateOnly 19792 \<and> fourDigitYear 19792
   \<and> utcStartOfDay 19792 < date sample_rent
   \<and> date sample_rent < utcStartOfDay (19792 + 1)
   \<and> \<not> matchesEnd utc_minus_5_env until_march_10 sample_rent
   \<and> sample_rent \<notin> set (filteredExpenses utc_minus_5_env sample_expenses until_march_10)
   \<and> matchesEnd utc_minus_5_env until_march_10 sample_gym"
  using end_bound[of until_march_10 19792 utc_minus_5_env sample_rent sample_expenses]
        end_bound[of until_march_10 19792 utc_minus_5_env sample_gym sample_expenses]
  by (simp add: until_march_10_def initial_filters_def utcStartOfDay_def msPerDay_def
      fourDigitYear_def sample_rent_def sample_gym_def)

section \<open>The aggregator\<close>

lemma totals_total_foldl:
  "totals_total (foldl reduce_step acc es) = foldl fadd (totals_total acc) (map amount es)"
  by (induction es arbitrary: acc) (simp_all add: reduce_step_def)

lemma byDate_foldl:
  "byDate (foldl reduce_step acc es) = byDate acc @ map (\<lambda>e. (amount e, date e)) es"
  by (induction es arbitrary: acc) (simp_all add: reduce_step_def)

lemma foldl_earliest:
  "foldl (\<lambda>earliest item. if snd item < earliest then snd item else earliest) a bd
     = Min (insert a (snd ` set bd))"
proof -
  have "foldl (\<lambda>earliest item. if snd item < earliest then snd item else earliest) a bd
          = fold min (map snd bd) a"
    by (induction bd arbitrary: a) (auto simp: min_def)
  also have "\<dots> = Min (set (a # map snd bd))"
    by (simp only: Min.set_eq_fold)
  finally show ?thesis by simp
qed

lemma foldl_latest:
  "foldl (\<lambda>latest item. if latest < snd item then snd item else latest) a bd
     = Max (insert a (snd ` set bd))"
proof -
  have "foldl (\<lambda>latest item. if latest < snd item then snd item else latest) a bd
          = fold max (map snd bd) a"
    by (induction bd arbitrary: a) (auto simp: max_def)
  also have "\<dots> = Max (set (a # map snd bd))"
    by (simp only: Max.set_eq_fold)
  finally show ?thesis by simp
qed

lemma byDate_totals_of: "byDate (totals_of es) = map (\<lambda>e. (amount e, date e)) es"
  by (simp add: totals_of_def byDate_foldl)

lemma snd_byDate: "snd ` set (map (\<lambda>e. (amount e, date e)) es) = date ` set es"
  by (auto simp: image_iff)

lemma firstDate_Min:
  assumes "es \<noteq> []"
  shows "firstDate now (byDate (totals_of es)) = Min (date ` set es)"
proof -
  obtain e es' where es: "es = e # es'" using assms by (cases es) auto
  show ?thesis
    unfolding firstDate_def byDate_totals_of foldl_earliest snd_byDate
    by (simp add: es insert_absorb)
qed

lemma lastDate_Max:
  assumes "es \<noteq> []"
  shows "lastDate now (byDate (totals_of es)) = Max (date ` set es)"
proof -
  obtain e es' where es: "es = e # es'" using assms by (cases es) auto
  show ?thesis
    unfolding lastDate_def byDate_totals_of foldl_latest snd_byDate
    by (simp add: es insert_absorb)
qed

lemma totals_total_spec: "totals_total (totals_of es) = spec_total es"
  by (simp add: totals_of_def totals_total_foldl spec_total_def sum_numbers_def)

lemma aggregator_formulas:
  assumes "es \<noteq> []"
  shows "diffDays now es = spec_spanDays es"
    and "diffMonths now es = spec_spanMonths es"
    and "total (aggregator now es) = spec_total es"
    and "avgDaily (aggregator now es) = fdiv (spec_total es) (spec_spanDays es)"
    and "avgMonthly (aggregator now es) = fdiv (spec_total es) (spec_spanMonths es)"
proof -
  show d: "diffDays now es = spec_spanDays es"
    using assms
    by (simp add: diffDays_def spec_spanDays_def firstDate_Min lastDate_Max)
  show m: "diffMonths now es = spec_spanMonths es"
    by (simp add: diffMonths_def spec_spanMonths_def d)
  show "total (aggregator now es) = spec_total es"
    using assms by (simp add: aggregator_def Let_def totals_total_spec)
  show "avgDaily (aggregator now es) = fdiv (spec_total es) (spec_spanDays es)"
    using assms by (simp add: d aggregator_def Let_def totals_total_spec)
  show "avgMonthly (aggregator now es) = fdiv (spec_total es) (spec_spanMonths es)"
    using assms by (simp add: m aggregator_def Let_def totals_total_spec)
qed

text \<open>
  C2: for the empty filtered record set the four outputs are the number 0. A JavaScript
  division by zero does not trap, it yields \<^verbatim>\<open>NaN\<close> or an infinity; the outputs are
  neither, and no division is evaluated on this input.
\<close>

theorem aggregator_empty:
  "aggregator now [] =
     \<lparr>total = Fin 0, avgDaily = Fin 0, avgMonthly = Fin 0, recurringTotal = Fin 0\<rparr>"
  by (simp add: aggregator_def)

theorem aggregator_empty_witness:
  "aggregator 0 [] =
     \<lparr>total = Fin 0, avgDaily = Fin 0, avgMonthly = Fin 0, recurringTotal = Fin 0\<rparr>"
  using aggregator_empty[of 0] by simp


section \<open>The spans in exact arithmetic\<close>

lemma ceiling_div_int:
  "\<lceil>(of_int a :: rat) / of_int b\<rceil> = - ((- a) div b)"
proof -
  have "\<lceil>(of_int a :: rat) / of_int b\<rceil> = - \<lfloor>(of_int (- a) :: rat) / of_int b\<rfloor>"
    by (simp add: ceiling_def)
  then show ?thesis by (simp only: floor_divide_of_int_eq)
qed

lemma Math_max_one:
  "Math_max [Fin 1, Fin (of_int k)] = Fin (of_int (max 1 k))"
  by (simp add: Math_max_def max2_def max_def)

lemma ceil_quotient:
  assumes "0 \<le> n" "n < 2 ^ 53" "0 < m" "m < 2 ^ 53"
  shows "Math_ceil (fdiv (Fin (of_int n)) (Fin (of_int m))) = Fin (of_int (- ((- n) div m)))"
proof -
  from ceiling_rnd_div[OF assms] obtain y where
    y: "rnd (of_int n / of_int m) = Fin y" "\<lceil>y\<rceil> = \<lceil>(of_int n / of_int m :: rat)\<rceil>"
    by auto
  then show ?thesis using assms(3) by (simp add: ceiling_div_int)
qed

lemma Min_le_Max_dates:
  assumes "es \<noteq> []"
  shows "Min (date ` set es) \<le> Max (date ` set es)"
proof -
  obtain e where e: "e \<in> set es" using assms by (cases es) auto
  have "Min (date ` set es) \<le> date e" using e by (intro Min_le) auto
  also have "date e \<le> Max (date ` set es)" using e by (intro Max_ge) auto
  finally show ?thesis .
qed

text \<open>
  When the time stamps span less than \<open>2^53\<close> milliseconds (some 285 000 years), the
  floating-point quotients round to numbers with the ceilings of the exact quotients.
\<close>

lemma spans_exact:
  assumes "es \<noteq> []" and "span_ms es < 2 ^ 53"
  shows "diffDays now es = Fin (of_int (exact_spanDays es))
       \<and> diffMonths now es = Fin (of_int (exact_spanMonths es))"
proof -
  define d where "d = span_ms es"
  have d0: "0 \<le> d" using Min_le_Max_dates[OF assms(1)] by (simp add: d_def span_ms_def)
  have d53: "d < 2 ^ 53" using assms(2) by (simp add: d_def)
  have "fsub (getTime (Max (date ` set es))) (getTime (Min (date ` set es)))
          = rnd (of_int d)"
    by (simp add: fsub_def getTime_def d_def span_ms_def)
  also have "\<dots> = Fin (of_int d)" using d0 d53 by (intro rnd_int) simp
  finally have sub: "fsub (getTime (Max (date ` set es))) (getTime (Min (date ` set es)))
          = Fin (of_int d)" .
  have c: "Math_ceil (fdiv (Fin (of_int d)) (Fin (of_int 86400000)))
             = Fin (of_int (- ((- d) div 86400000)))"
    using d0 d53 by (intro ceil_quotient) simp_all
  have "diffDays now es
          = Math_max [Fin 1, Math_ceil (fdiv (Fin (of_int d)) (Fin (of_int 86400000)))]"
    using assms(1) by (simp add: diffDays_def firstDate_Min lastDate_Max sub
        del: fdiv.simps Math_ceil.simps)
  also have "\<dots> = Fin (of_int (max 1 (- ((- d) div 86400000))))"
    by (simp only: c Math_max_one)
  finally have days: "diffDays now es = Fin (of_int (exact_spanDays es))"
    by (simp only: exact_spanDays_def d_def)
  define D where "D = exact_spanDays es"
  have "- ((- d) div 86400000) \<le> d"
    using d0 by linarith
  then have D53: "D < 2 ^ 53" "0 \<le> D" using d53 by (simp_all add: D_def exact_spanDays_def d_def)
  have cm: "Math_ceil (fdiv (Fin (of_int D)) (Fin (of_int 30))) = Fin (of_int (- ((- D) div 30)))"
    using D53 by (intro ceil_quotient) simp_all
  have "diffMonths now es
          = Math_max [Fin 1, Math_ceil (fdiv (Fin (of_int D)) (Fin (of_int 30)))]"
    by (simp add: diffMonths_def days D_def del: fdiv.simps Math_ceil.simps)
  also have "\<dots> = Fin (of_int (max 1 (- ((- D) div 30))))"
    by (simp only: cm Math_max_one)
  finally have "diffMonths now es = Fin (of_int (exact_spanMonths es))"
    by (simp only: exact_spanMonths_def D_def)
  with days show ?thesis by simp
qed

text \<open>
  C1: for every non-empty filtered record set the total is the sum of the amounts, the
  daily and the monthly average are the total divided by the span in days and by the span
  in months, the span in days is \<open>max(1, ceil((maximum time stamp - minimum time stamp) /
  86400000))\<close> and the span in months is \<open>max(1, ceil(spanDays / 30))\<close>, computed on
  JavaScript numbers; and when the time stamps span less than \<open>2^53\<close> milliseconds the
  two spans are these maxima and ceilings as exact integers.
\<close>

theorem aggregator_spans:
  assumes "es \<noteq> []"
  shows "total (aggregator now es) = spec_total es
       \<and> avgDaily (aggregator now es) = fdiv (spec_total es) (diffDays now es)
       \<and> avgMonthly (aggregator now es) = fdiv (spec_total es) (diffMonths now es)
       \<and> diffDays now es = spec_spanDays es
       \<and> diffMonths now es = spec_spanMonths es
       \<and> (span_ms es < 2 ^ 53 \<longrightarrow>
            diffDays now es = Fin (of_int (exact_spanDays es))
          \<and> diffMonths now es = Fin (of_int (exact_spanMonths es)))"
  using aggregator_formulas[OF assms, of now] spans_exact[OF assms, of now] by simp

theorem aggregator_spans_witness:
  "[sample_rent, sample_gym] \<noteq> [] \<and> span_ms [sample_rent, sample_gym] = 1728000000
   \<and> diffDays 0 [sample_rent, sample_gym] = Fin 20
   \<and> diffMonths 0 [sample_rent, sample_gym] = Fin 1
   \<and> total (aggregator 0 [sample_rent, sample_gym]) = Fin 1865
   \<and> avgDaily (aggregator 0 [sample_rent, sample_gym]) = Fin (373 / 4)
   \<and> avgMonthly (aggregator 0 [sample_rent, sample_gym]) = Fin 1865"
proof -
  have s: "span_ms [sample_rent, sample_gym] = 1728000000"
    by (simp add: span_ms_def sample_rent_def sample_gym_def)
  have d: "exact_spanDays [sample_rent, sample_gym] = 20" by (simp add: exact_spanDays_def s)
  have m: "exact_spanMonths [sample_rent, sample_gym] = 1" by (simp add: exact_spanMonths_def d)
  have r1: "rnd 1800 = Fin 1800" using rnd_int[of 1800] by simp
  have r2: "rnd 1865 = Fin 1865" using rnd_int[of 1865] by simp
  have r3: "rnd (373 / 4) = Fin (373 / 4)"
    using rnd_exact[of "373 / 4" 373 "- 2"] by (simp add: pow2_def)
  have t: "spec_total [sample_rent, sample_gym] = Fin 1865"
    by (simp add: spec_total_def sum_numbers_def sample_rent_def sample_gym_def r1 r2)
  have n: "[sample_rent, sample_gym] \<noteq> []" by simp
  have lt: "span_ms [sample_rent, sample_gym] < 2 ^ 53" by (simp add: s)
  note th = aggregator_spans[OF n, of 0]
  from th lt have ex: "diffDays 0 [sample_rent, sample_gym]
                         = Fin (of_int (exact_spanDays [sample_rent, sample_gym]))
                     \<and> diffMonths 0 [sample_rent, sample_gym]
                         = Fin (of_int (exact_spanMonths [sample_rent, sample_gym]))"
    by blast
  have dd: "diffDays 0 [sample_rent, sample_gym] = Fin 20"
    using ex by (simp only: d) simp
  have dm: "diffMonths 0 [sample_rent, sample_gym] = Fin 1"
    using ex by (simp only: m) simp
  from th have tt: "total (aggregator 0 [sample_rent, sample_gym]) = Fin 1865"
    by (simp only: t)
  from th have ad: "avgDaily (aggregator 0 [sample_rent, sample_gym]) = fdiv (Fin 1865) (Fin 20)"
    by (simp only: t dd)
  from th have am: "avgMonthly (aggregator 0 [sample_rent, sample_gym]) = fdiv (Fin 1865) (Fin 1)"
    by (simp only: t dm)
  show ?thesis
    by (simp add: s dd dm tt ad am r2 r3)
qed


section \<open>Insertion-ordered maps\<close>

lemma map_set_keys: "fst ` set (map_set m k v) = insert k (fst ` set m)"
  by (induction m k v rule: map_set.induct) auto

lemma map_set_distinct:
  "distinct (map fst m) \<Longrightarrow> distinct (map fst (map_set m k v))"
proof (induction m k v rule: map_set.induct)
  case (1 k v)
  then show ?case by simp
next
  case (2 k' v' m k v)
  then show ?case
    using map_set_keys[of m k v] by (auto simp: image_iff)
qed

lemma map_get_map_set: "map_get (map_set m k v) k' = (if k' = k then Some v else map_get m k')"
  by (induction m k v rule: map_set.induct) (auto simp: map_get_def)

section \<open>The category breakdown\<close>

lemma byCategory_keys_gen:
  "fst ` set (foldl (\<lambda>m e. map_set m (category e)
                    (fadd (coalesce (map_get m (category e)) (Fin 0)) (amount e))) m0 es)
     = fst ` set m0 \<union> category ` set es"
  by (induction es arbitrary: m0) (auto simp: map_set_keys)

lemma byCategory_keys: "fst ` set (byCategory es) = category ` set es"
  by (simp add: byCategory_def byCategory_keys_gen)

lemma bucket_categories:
  "map bucket_category (categoryBreakdown es tot) = categories"
  by (simp add: categoryBreakdown_def Let_def o_def)

lemma bucket_amounts:
  "map bucket_amount (categoryBreakdown es tot)
     = map (\<lambda>c. coalesce (map_get (byCategory es) c) (Fin 0)) categories"
  by (simp add: categoryBreakdown_def Let_def o_def)

text \<open>
  C6: the breakdown holds exactly one bucket for each of the eight categories, in the
  declared order Housing, Transportation, Food, Utilities, Entertainment, Health,
  Education, Other; the bucket of a category that no record has is there with amount 0.
\<close>

theorem breakdown_categories:
  "map bucket_category (categoryBreakdown es tot)
     = [Housing, Transportation, Food, Utilities, Entertainment, Health, Education, Other]
   \<and> (\<forall>b \<in> set (categoryBreakdown es tot).
        bucket_category b \<notin> category ` set es \<longrightarrow> bucket_amount b = Fin 0)"
proof
  show "map bucket_category (categoryBreakdown es tot)
     = [Housing, Transportation, Food, Utilities, Entertainment, Health, Education, Other]"
    by (simp add: bucket_categories categories_def)
next
  have "map_get (byCategory es) c = None" if "c \<notin> category ` set es" for c
    using that byCategory_keys[of es] by (simp add: map_get_def map_of_eq_None_iff)
  then show "\<forall>b \<in> set (categoryBreakdown es tot).
        bucket_category b \<notin> category ` set es \<longrightarrow> bucket_amount b = Fin 0"
    by (auto simp: categoryBreakdown_def Let_def coalesce_def)
qed

theorem breakdown_categories_witness:
  "map bucket_category (categoryBreakdown [sample_rent] (Fin 1800))
     = [Housing, Transportation, Food, Utilities, Entertainment, Health, Education, Other]
   \<and> map bucket_amount (categoryBreakdown [sample_rent] (Fin 1800))
     = [Fin 1800, Fin 0, Fin 0, Fin 0, Fin 0, Fin 0, Fin 0, Fin 0]"
proof -
  have r: "rnd 1800 = Fin 1800" using rnd_int[of 1800] by simp
  have bc: "byCategory [sample_rent] = [(Housing, Fin 1800)]"
    by (simp add: byCategory_def sample_rent_def map_get_def coalesce_def r)
  have "map bucket_amount (categoryBreakdown [sample_rent] (Fin 1800))
     = [Fin 1800, Fin 0, Fin 0, Fin 0, Fin 0, Fin 0, Fin 0, Fin 0]"
    by (simp add: bucket_amounts bc categories_def map_get_def coalesce_def)
  with breakdown_categories[of "[sample_rent]" "Fin 1800"] show ?thesis by simp
qed


section \<open>The monthly trend\<close>

lemma byMonth_distinct_gen:
  "distinct (map fst m0) \<Longrightarrow>
   distinct (map fst (foldl (\<lambda>m e. let k = monthKey ev (date e)
                  in map_set m k (fadd (coalesce (map_get m k) (Fin 0)) (amount e))) m0 es))"
  by (induction es arbitrary: m0) (simp_all add: Let_def map_set_distinct)

lemma byMonth_distinct: "distinct (map fst (byMonth ev es))"
  by (simp add: byMonth_def byMonth_distinct_gen)

lemma set_insert_by: "set (insert_by cmp x ys) = insert x (set ys)"
  by (induction ys) auto

lemma compare_keys_neg: "compare_keys a b < 0 \<longleftrightarrow> key a < key b"
  by (simp add: compare_keys_def)

lemma insert_by_sorted:
  "sorted_wrt (<) (map key ys) \<Longrightarrow> key x \<notin> key ` set ys \<Longrightarrow>
   sorted_wrt (<) (map key (insert_by compare_keys x ys))"
proof (induction ys)
  case Nil
  then show ?case by simp
next
  case (Cons y ys)
  show ?case
  proof (cases "key x < key y")
    case True
    with Cons.prems show ?thesis
      by (auto simp: compare_keys_neg)
  next
    case False
    with Cons.prems have lt: "key y < key x" by auto
    have "sorted_wrt (<) (map key (insert_by compare_keys x ys))"
      using Cons by simp
    moreover have "\<forall>z \<in> set (insert_by compare_keys x ys). key y < key z"
      using Cons.prems lt by (auto simp: set_insert_by)
    ultimately show ?thesis
      using False by (simp add: compare_keys_neg)
  qed
qed

lemma insert_by_distinct:
  "distinct (map key (insert_by cmp x ys)) \<longleftrightarrow> key x \<notin> key ` set ys \<and> distinct (map key ys)"
  by (induction ys) (auto simp: set_insert_by)

lemma sort_by_sorted_gen:
  "sorted_wrt (<) (map key acc) \<Longrightarrow> distinct (map key (acc @ xs)) \<Longrightarrow>
   sorted_wrt (<) (map key (foldl (\<lambda>acc x. insert_by compare_keys x acc) acc xs))"
proof (induction xs arbitrary: acc)
  case Nil
  then show ?case by simp
next
  case (Cons x xs)
  have s: "sorted_wrt (<) (map key (insert_by compare_keys x acc))"
    using Cons.prems by (intro insert_by_sorted) auto
  have d: "distinct (map key (insert_by compare_keys x acc @ xs))"
    using Cons.prems by (auto simp: insert_by_distinct set_insert_by)
  from Cons.IH[OF s d] show ?case by simp
qed

lemma sort_by_sorted:
  "distinct (map key xs) \<Longrightarrow> sorted_wrt (<) (map key (sort_by compare_keys xs))"
  unfolding sort_by_def by (rule sort_by_sorted_gen) simp_all

lemma trend_points_keys:
  "map key (map (\<lambda>(k, a). \<lparr>key = k, trend_amount = a, trend_label = lab k\<rparr>) m) = map fst m"
  by (induction m) auto

text \<open>
  C8: the trend points are strictly ascending by month key, hence without a duplicate
  key, and the empty filtered set gives the empty sequence.
\<close>

theorem trend_ascending:
  "sorted_wrt (<) (map key (trend ev es)) \<and> distinct (map key (trend ev es))
   \<and> trend ev [] = []"
proof -
  have s: "sorted_wrt (<) (map key (trend ev es))"
    unfolding trend_def
    by (rule sort_by_sorted) (simp only: trend_points_keys byMonth_distinct)
  have "distinct (map key (trend ev es))"
    using s by (simp add: strict_sorted_iff)
  moreover have "trend ev [] = []"
    by (simp add: trend_def byMonth_def sort_by_def)
  ultimately show ?thesis using s by simp
qed

lemma sample_month_keys:
  "monthKey utc_env 1710082800000 = ''2024-03''"
  "monthKey utc_env 1708354800000 = ''2024-02''"
  "monthKey utc_env 1709910000000 = ''2024-03''"
  by code_simp+

theorem trend_ascending_witness:
  "map key (trend utc_env sample_expenses) = [''2024-02'', ''2024-03'']
   \<and> sorted_wrt (<) (map key (trend utc_env sample_expenses))
   \<and> distinct (map key (trend utc_env sample_expenses))"
proof -
  have "map fst (byMonth utc_env sample_expenses) = [''2024-03'', ''2024-02'']"
    by (simp add: byMonth_def sample_expenses_def sample_rent_def sample_gym_def
        sample_movie_def sample_month_keys Let_def)
  then obtain a b where bm: "byMonth utc_env sample_expenses = [(''2024-03'', a), (''2024-02'', b)]"
    by (cases "byMonth utc_env sample_expenses") auto
  have "map key (trend utc_env sample_expenses) = [''2024-02'', ''2024-03'']"
    by (simp add: trend_def bm sort_by_def compare_keys_def)
  with trend_ascending[of utc_env sample_expenses] show ?thesis by simp
qed


section \<open>Adding an expense\<close>

text \<open>
  C9: when the amount text converts to \<^verbatim>\<open>NaN\<close> or to a number that is at most 0,
  \<^verbatim>\<open>handleSubmit\<close> sets the validation message and changes nothing else: no expense is
  built and the expenses are the ones before.
\<close>

theorem submit_rejects:
  assumes "isNaN (Number_of_string (form_amount (form st)))
         \<or> js_le (Number_of_string (form_amount (form st))) (Fin 0)"
  shows "handleSubmit ev uuid st
           = Inr (st\<lparr>error_message := Some ''Please enter a valid amount greater than 0.''\<rparr>)
       \<and> map_sum id expenses (handleSubmit ev uuid st) = Inr (expenses st)"
  using assms by (auto simp: handleSubmit_def Let_def)

lemma Number_minus_five: "Number_of_string ''-5'' = Fin (- 5)"
proof -
  have r: "rnd (- 5) = Fin (- 5)" using rnd_int[of "- 5"] by simp
  show ?thesis
    by (simp add: Number_of_string_def trim_def isWhiteSpace_def parse_radix_def
        parse_unsigned_def parse_exponent_def isDigit_def digitsValue_def digitVal_def
        pow10_def Let_def r)
qed

theorem submit_rejects_witness:
  "js_le (Number_of_string (form_amount (form minus_five_form))) (Fin 0)
   \<and> handleSubmit utc_env ''id'' minus_five_form
       = Inr (minus_five_form\<lparr>error_message :=
                Some ''Please enter a valid amount greater than 0.''\<rparr>)
   \<and> map_sum id expenses (handleSubmit utc_env ''id'' minus_five_form) = Inr sample_expenses"
proof -
  have a: "form_amount (form minus_five_form) = ''-5''"
    by (simp add: minus_five_form_def)
  have le: "js_le (Number_of_string (form_amount (form minus_five_form))) (Fin 0)"
    by (simp add: a Number_minus_five js_le_def)
  have e: "expenses minus_five_form = sample_expenses"
    by (simp add: minus_five_form_def)
  from submit_rejects[of minus_five_form utc_env "''id''"] le e show ?thesis by simp
qed



section \<open>The widths of the breakdown\<close>



lemma non_negative_iff: "non_negative a \<longleftrightarrow> a = PInf \<or> (\<exists>x. a = Fin x \<and> 0 \<le> x)"
  by (cases a) (auto simp: non_negative_def js_le_def js_eq_def)


lemma non_negative_fadd:
  assumes "non_negative a" "non_negative b"
  shows "non_negative (fadd a b)"
proof -
  consider "a = PInf" | "b = PInf" | x y where "a = Fin x" "b = Fin y" "0 \<le> x" "0 \<le> y"
    using assms by (auto simp: non_negative_iff)
  then show ?thesis
  proof cases
    case 1
    then show ?thesis using assms(2) by (auto simp: non_negative_iff)
  next
    case 2
    then show ?thesis using assms(1) by (auto simp: non_negative_iff)
  next
    case 3
    then show ?thesis using rnd_nonneg[of "x + y"] by (auto simp: non_negative_iff)
  qed
qed




































section \<open>The category sums and the total\<close>

lemma total_spec: "total (aggregator now es) = spec_total es"
  by (cases es) (simp_all add: aggregator_def Let_def totals_total_spec spec_total_def
      sum_numbers_def)

lemma fadd_int:
  assumes "0 \<le> a" "0 \<le> b" "a + b \<le> 2 ^ 53"
  shows "fadd (Fin (of_int a)) (Fin (of_int b)) = Fin (of_int (a + b))"
  using assms rnd_int[of "a + b"] by simp

lemma foldl_fadd_int:
  assumes "\<forall>n \<in> set ns. 0 \<le> n" "0 \<le> a" "a + sum_list ns \<le> 2 ^ 53"
  shows "foldl fadd (Fin (of_int a)) (map (\<lambda>n. Fin (of_int n)) ns)
           = Fin (of_int (a + sum_list ns))"
  using assms
proof (induction ns arbitrary: a)
  case Nil
  then show ?case by simp
next
  case (Cons n ns)
  have n: "0 \<le> n" and ns: "\<forall>n \<in> set ns. 0 \<le> n" using Cons.prems(1) by simp_all
  have "0 \<le> sum_list ns" using ns by (simp add: sum_list_nonneg)
  then have b: "a + n \<le> 2 ^ 53" using Cons.prems(3) by simp
  have s: "fadd (Fin (of_int a)) (Fin (of_int n)) = Fin (of_int (a + n))"
    using Cons.prems(2) n b by (rule fadd_int)
  have "foldl fadd (Fin (of_int (a + n))) (map (\<lambda>n. Fin (of_int n)) ns)
          = Fin (of_int (a + n + sum_list ns))"
    using ns Cons.prems(2,3) n by (intro Cons.IH) simp_all
  then show ?case by (simp only: list.map foldl_Cons s sum_list.Cons add.assoc)
qed

text \<open>The sum of the whole amounts of the records of one category.\<close>

lemma category_share_sum:
  "sum_list (map (\<lambda>c. if category e = c then (n :: 'a :: comm_monoid_add) else 0) categories) = n"
  by (cases "category e") (simp_all add: categories_def)

lemma sum_by_category:
  "sum_list (map (\<lambda>c. sum_list (map w (filter (\<lambda>e. category e = c) es))) categories)
     = sum_list (map (w :: Expense \<Rightarrow> 'a :: comm_monoid_add) es)"
proof (induction es)
  case Nil
  then show ?case by (simp add: categories_def)
next
  case (Cons e es)
  have "sum_list (map (\<lambda>c. sum_list (map w (filter (\<lambda>e. category e = c) (e # es)))) categories)
      = sum_list (map (\<lambda>c. (if category e = c then w e else 0)
                            + sum_list (map w (filter (\<lambda>e. category e = c) es))) categories)"
    by (intro arg_cong[where f = sum_list] map_cong) auto
  also have "\<dots> = sum_list (map (\<lambda>c. if category e = c then w e else 0) categories)
      + sum_list (map (\<lambda>c. sum_list (map w (filter (\<lambda>e. category e = c) es))) categories)"
    by (rule sum_list_addf)
  finally show ?case using Cons.IH by (simp add: category_share_sum)
qed

lemma filter_sum_le:
  assumes "\<forall>e \<in> set es. 0 \<le> (w :: Expense \<Rightarrow> int) e"
  shows "sum_list (map w (filter P es)) \<le> sum_list (map w es)"
  using assms by (induction es) (auto intro: add_increasing)

lemma filter_sum_nonneg:
  assumes "\<forall>e \<in> set es. 0 \<le> (w :: Expense \<Rightarrow> int) e"
  shows "0 \<le> sum_list (map w (filter P es))"
  using assms by (intro sum_list_nonneg) auto

lemma byCategory_int_gen:
  assumes "\<forall>e \<in> set (es :: Expense list). amount e = Fin (of_int (w e)) \<and> 0 \<le> w e"
    and "\<forall>c. coalesce (map_get m0 c) (Fin 0) = Fin (of_int (s0 c)) \<and> 0 \<le> s0 c"
    and "\<forall>c. s0 c + sum_list (map w (filter (\<lambda>e. category e = c) es)) \<le> 2 ^ 53"
  shows "coalesce (map_get (foldl (\<lambda>m e. map_set m (category e)
                    (fadd (coalesce (map_get m (category e)) (Fin 0)) (amount e))) m0 es) c) (Fin 0)
           = Fin (of_int (s0 c + sum_list (map w (filter (\<lambda>e. category e = c) es))))"
  using assms
proof (induction es arbitrary: m0 s0)
  case Nil
  then show ?case by simp
next
  case (Cons e es)
  define k where "k = category e"
  define v where "v = fadd (coalesce (map_get m0 k) (Fin 0)) (amount e)"
  define s1 where "s1 = s0(k := s0 k + w e)"
  have e: "amount e = Fin (of_int (w e))" "0 \<le> w e" using Cons.prems(1) by simp_all
  have es: "\<forall>e \<in> set es. amount e = Fin (of_int (w e)) \<and> 0 \<le> w e"
    using Cons.prems(1) by simp
  have es0: "\<forall>e \<in> set es. 0 \<le> w e" using es by simp
  have rest: "0 \<le> sum_list (map w (filter (\<lambda>e. category e = c) es))" for c
    using es0 by (rule filter_sum_nonneg)
  have "s0 k + sum_list (map w (filter (\<lambda>e. category e = k) (e # es))) \<le> 2 ^ 53"
    using Cons.prems(3) by blast
  then have bk: "s0 k + w e \<le> 2 ^ 53" using rest[of k] by (simp add: k_def)
  have m0k: "coalesce (map_get m0 k) (Fin 0) = Fin (of_int (s0 k))" "0 \<le> s0 k"
    using Cons.prems(2) by simp_all
  have v: "v = Fin (of_int (s0 k + w e))"
    unfolding v_def m0k(1) e(1) using m0k(2) e(2) bk by (rule fadd_int)
  have m1: "\<forall>c. coalesce (map_get (map_set m0 k v) c) (Fin 0) = Fin (of_int (s1 c)) \<and> 0 \<le> s1 c"
    using Cons.prems(2) e(2) by (simp add: map_get_map_set s1_def v coalesce_def)
  have b1: "\<forall>c. s1 c + sum_list (map w (filter (\<lambda>e. category e = c) es)) \<le> 2 ^ 53"
  proof
    fix c
    have "s0 c + sum_list (map w (filter (\<lambda>e. category e = c) (e # es))) \<le> 2 ^ 53"
      using Cons.prems(3) by blast
    then show "s1 c + sum_list (map w (filter (\<lambda>e. category e = c) es)) \<le> 2 ^ 53"
      by (auto simp: s1_def k_def split: if_splits)
  qed
  have "coalesce (map_get (foldl (\<lambda>m e. map_set m (category e)
                    (fadd (coalesce (map_get m (category e)) (Fin 0)) (amount e)))
                    (map_set m0 k v) es) c) (Fin 0)
           = Fin (of_int (s1 c + sum_list (map w (filter (\<lambda>e. category e = c) es))))"
    using es m1 b1 by (rule Cons.IH)
  moreover have "s1 c + sum_list (map w (filter (\<lambda>e. category e = c) es))
      = s0 c + sum_list (map w (filter (\<lambda>e. category e = c) (e # es)))"
    by (auto simp: s1_def k_def)
  ultimately show ?case by (simp only: foldl_Cons k_def[symmetric] v_def[symmetric])
qed

lemma byCategory_int:
  assumes "\<forall>e \<in> set es. amount e = Fin (of_int (w e)) \<and> 0 \<le> w e"
    and "sum_list (map w es) \<le> 2 ^ 53"
  shows "coalesce (map_get (byCategory es) c) (Fin 0)
           = Fin (of_int (sum_list (map w (filter (\<lambda>e. category e = c) es))))"
proof -
  have w0: "\<forall>e \<in> set es. 0 \<le> w e" using assms(1) by simp
  have b: "\<forall>c. (\<lambda>c. 0) c + sum_list (map w (filter (\<lambda>e. category e = c) es)) \<le> 2 ^ 53"
    using filter_sum_le[OF w0] assms(2) by (auto intro: order_trans)
  have i: "\<forall>c. coalesce (map_get [] c) (Fin 0) = Fin (of_int ((\<lambda>c. 0) c)) \<and> 0 \<le> (\<lambda>c. 0::int) c"
    by (simp add: map_get_def coalesce_def)
  from byCategory_int_gen[OF assms(1) i b, of c] show ?thesis
    by (simp add: byCategory_def)
qed

lemma whole_amount_int:
  assumes "whole_amount a"
  shows "a = Fin (of_int \<lfloor>exact_value a\<rfloor>) \<and> 0 \<le> \<lfloor>exact_value a\<rfloor>"
  using assms by (cases a) (auto simp: whole_amount_def exact_value_def)

lemma category_sums_int:
  assumes "\<forall>e \<in> set es. amount e = Fin (of_int (w e)) \<and> 0 \<le> w e"
    and "sum_list (map w es) \<le> 2 ^ 53"
  shows "sum_numbers (map bucket_amount (categoryBreakdown es tot)) = Fin (of_int (sum_list (map w es)))"
    and "total (aggregator now es) = Fin (of_int (sum_list (map w es)))"
proof -
  let ?S = "\<lambda>c. sum_list (map w (filter (\<lambda>e. category e = c) es))"
  have w0: "\<forall>e \<in> set es. 0 \<le> w e" using assms(1) by simp
  have "map bucket_amount (categoryBreakdown es tot) = map (\<lambda>c. Fin (of_int (?S c))) categories"
    by (simp add: bucket_amounts byCategory_int[OF assms])
  also have "\<dots> = map (\<lambda>n. Fin (of_int n)) (map ?S categories)"
    by (simp add: o_def)
  finally have ba: "map bucket_amount (categoryBreakdown es tot)
      = map (\<lambda>n. Fin (of_int n)) (map ?S categories)" .
  have nn: "\<forall>n \<in> set (map ?S categories). 0 \<le> n"
    using filter_sum_nonneg[OF w0] by auto
  have tot: "sum_list (map ?S categories) = sum_list (map w es)"
    by (rule sum_by_category)
  have "foldl fadd (Fin (of_int 0)) (map (\<lambda>n. Fin (of_int n)) (map ?S categories))
      = Fin (of_int (0 + sum_list (map ?S categories)))"
    using nn assms(2) by (intro foldl_fadd_int) (simp_all add: tot)
  then show "sum_numbers (map bucket_amount (categoryBreakdown es tot))
      = Fin (of_int (sum_list (map w es)))"
    by (simp add: sum_numbers_def ba tot)
  have am: "map amount es = map (\<lambda>n. Fin (of_int n)) (map w es)"
    using assms(1) by (induction es) auto
  have "foldl fadd (Fin (of_int 0)) (map (\<lambda>n. Fin (of_int n)) (map w es))
      = Fin (of_int (0 + sum_list (map w es)))"
    using w0 assms(2) by (intro foldl_fadd_int) auto
  then show "total (aggregator now es) = Fin (of_int (sum_list (map w es)))"
    by (simp add: total_spec spec_total_def sum_numbers_def am)
qed


section \<open>The error of floating-point summation\<close>

lemma unit_roundoff_pos: "0 < unit_roundoff"
  by (simp add: unit_roundoff_def)

lemma growth_nonneg: "0 \<le> growth k"
proof -
  have "1 \<le> (1 + unit_roundoff) ^ k"
    using unit_roundoff_pos by (intro one_le_power) simp
  then show ?thesis by (simp add: growth_def)
qed

lemma growth_mono: "j \<le> k \<Longrightarrow> growth j \<le> growth k"
  using unit_roundoff_pos by (simp add: growth_def power_increasing)

lemma growth_Suc: "growth (Suc k) = (1 + unit_roundoff) * growth k + unit_roundoff"
  by (simp add: growth_def algebra_simps)

lemma growth_add: "growth (j + k) = growth j + growth k + growth j * growth k"
  by (simp add: growth_def power_add algebra_simps)

lemma rnd_relative_error:
  assumes "rnd x = Fin y"
  shows "\<bar>y - x\<bar> \<le> unit_roundoff * (\<bar>x\<bar> + smallest_normal)"
proof (cases "x = 0")
  case True
  with assms show ?thesis
    using unit_roundoff_pos by (simp add: rnd_def smallest_normal_def)
next
  case False
  then have xp: "0 < \<bar>x\<bar>" by simp
  from rnd_error[OF False assms]
  have e: "\<bar>y - x\<bar> \<le> pow2 (max (ilog2 \<bar>x\<bar>) (- 1022) - 53)" .
  have u: "unit_roundoff = pow2 (- 53)" by (simp add: unit_roundoff_def pow2_def)
  have s: "smallest_normal = pow2 (- 1022)" by (simp add: smallest_normal_def pow2_def)
  have "pow2 (max (ilog2 \<bar>x\<bar>) (- 1022) - 53) \<le> unit_roundoff * (\<bar>x\<bar> + smallest_normal)"
  proof (cases "- 1022 \<le> ilog2 \<bar>x\<bar>")
    case True
    have "pow2 (ilog2 \<bar>x\<bar> - 53) = pow2 (- 53) * pow2 (ilog2 \<bar>x\<bar>)"
      using pow2_add[of "- 53" "ilog2 \<bar>x\<bar>"] by simp
    also have "\<dots> \<le> pow2 (- 53) * \<bar>x\<bar>"
      using ilog2_bounds[OF xp] pow2_pos[of "- 53"] by (intro mult_left_mono) auto
    also have "\<dots> \<le> pow2 (- 53) * (\<bar>x\<bar> + pow2 (- 1022))"
      using pow2_pos[of "- 53"] pow2_pos[of "- 1022"] by (intro mult_left_mono) auto
    finally show ?thesis using True by (simp add: u s max_def)
  next
    case False
    have "pow2 (- 1022 - 53) = pow2 (- 53) * pow2 (- 1022)"
      using pow2_add[of "- 53" "- 1022"] by simp
    also have "\<dots> \<le> pow2 (- 53) * (\<bar>x\<bar> + pow2 (- 1022))"
      using pow2_pos[of "- 53"] by (intro mult_left_mono) auto
    finally show ?thesis using False by (simp add: u s max_def)
  qed
  with e show ?thesis by linarith
qed

lemma foldl_fadd_PInf:
  "\<forall>a \<in> set as. non_negative a \<Longrightarrow> foldl fadd PInf as = PInf"
proof (induction as)
  case Nil
  then show ?case by simp
next
  case (Cons a as)
  then have "fadd PInf a = PInf" by (auto simp: non_negative_iff)
  with Cons show ?case by simp
qed

text \<open>The values of a list of finite numbers that are not negative.\<close>

lemma finite_non_negative_values:
  assumes "\<forall>a \<in> set as. non_negative a \<and> isFinite a"
  shows "as = map Fin (map exact_value as) \<and> (\<forall>x \<in> set (map exact_value as). 0 \<le> x)"
  using assms
proof (induction as)
  case Nil
  then show ?case by simp
next
  case (Cons a as)
  then show ?case
    by (cases a) (auto simp: non_negative_iff isFinite_def exact_value_def)
qed

lemma foldl_fadd_error:
  assumes "\<forall>x \<in> set xs. 0 \<le> x" and "0 \<le> a" and "0 \<le> s0"
    and "\<bar>a - s0\<bar> \<le> growth i * (s0 + smallest_normal)"
    and "foldl fadd (Fin a) (map Fin xs) = Fin r"
  shows "0 \<le> r \<and> \<bar>r - (s0 + sum_list xs)\<bar>
           \<le> growth (i + length xs) * (s0 + sum_list xs + smallest_normal)"
  using assms
proof (induction xs arbitrary: a s0 i)
  case Nil
  then show ?case by simp
next
  case (Cons x xs)
  have x0: "0 \<le> x" and xs0: "\<forall>x \<in> set xs. 0 \<le> x" using Cons.prems(1) by simp_all
  have nn: "\<forall>b \<in> set (map Fin xs). non_negative b"
    using xs0 by (auto simp: non_negative_iff)
  have ax: "0 \<le> a + x" using Cons.prems(2) x0 by simp
  from rnd_nonneg[OF ax] consider "rnd (a + x) = PInf" | a' where "rnd (a + x) = Fin a'" "0 \<le> a'"
    by auto
  then show ?case
  proof cases
    case 1
    then have "foldl fadd (Fin a) (map Fin (x # xs)) = PInf"
      using foldl_fadd_PInf[OF nn] by simp
    with Cons.prems(5) show ?thesis by simp
  next
    case 2
    define s1 where "s1 = s0 + x"
    define E where "E = growth i * (s0 + smallest_normal)"
    have u: "0 < unit_roundoff" by (rule unit_roundoff_pos)
    have sn: "0 < smallest_normal" by (simp add: smallest_normal_def)
    have E0: "0 \<le> E" unfolding E_def using growth_nonneg Cons.prems(3) sn by (intro mult_nonneg_nonneg) auto
    have aE: "\<bar>a - s0\<bar> \<le> E" using Cons.prems(4) by (simp add: E_def)
    have s10: "0 \<le> s1" using Cons.prems(3) x0 by (simp add: s1_def)
    from rnd_relative_error[OF 2(1)]
    have "\<bar>a' - (a + x)\<bar> \<le> unit_roundoff * (\<bar>a + x\<bar> + smallest_normal)" .
    also have "\<bar>a + x\<bar> = a + x" using ax by simp
    also have "unit_roundoff * (a + x + smallest_normal)
                 \<le> unit_roundoff * (s1 + E + smallest_normal)"
      using aE u by (intro mult_left_mono) (auto simp: s1_def abs_le_iff)
    finally have r1: "\<bar>a' - (a + x)\<bar> \<le> unit_roundoff * (s1 + E + smallest_normal)" .
    have "\<bar>a' - s1\<bar> \<le> \<bar>a' - (a + x)\<bar> + \<bar>a - s0\<bar>" by (simp add: s1_def)
    also have "\<dots> \<le> unit_roundoff * (s1 + E + smallest_normal) + E" using r1 aE by simp
    also have "\<dots> = (1 + unit_roundoff) * E + unit_roundoff * (s1 + smallest_normal)"
      by (simp add: algebra_simps)
    also have "\<dots> \<le> (1 + unit_roundoff) * (growth i * (s1 + smallest_normal))
                    + unit_roundoff * (s1 + smallest_normal)"
    proof -
      have "E \<le> growth i * (s1 + smallest_normal)"
        unfolding E_def using growth_nonneg[of i] x0 by (intro mult_left_mono) (auto simp: s1_def)
      then show ?thesis using u by (simp add: mult_left_mono)
    qed
    also have "\<dots> = growth (Suc i) * (s1 + smallest_normal)"
      by (simp add: growth_Suc algebra_simps)
    finally have e1: "\<bar>a' - s1\<bar> \<le> growth (Suc i) * (s1 + smallest_normal)" .
    have f: "foldl fadd (Fin a') (map Fin xs) = Fin r"
      using Cons.prems(5) 2(1) by simp
    from Cons.IH[OF xs0 2(2) s10 e1 f]
    show ?thesis by (simp add: s1_def add.assoc)
  qed
qed

lemma sum_numbers_error:
  assumes "\<forall>x \<in> set xs. 0 \<le> x" and "sum_numbers (map Fin xs) = Fin r"
  shows "0 \<le> r \<and> \<bar>r - sum_list xs\<bar> \<le> growth (length xs) * (sum_list xs + smallest_normal)"
proof -
  have "\<bar>(0::rat) - 0\<bar> \<le> growth 0 * (0 + smallest_normal)" by (simp add: growth_def)
  from foldl_fadd_error[OF assms(1) _ _ this, of r] assms(2) show ?thesis
    by (simp add: sum_numbers_def)
qed

lemma growth_linear:
  assumes "2 * of_nat k * unit_roundoff \<le> 1"
  shows "growth k \<le> 2 * of_nat k * unit_roundoff"
  using assms
proof (induction k)
  case 0
  then show ?case by (simp add: growth_def)
next
  case (Suc k)
  have u: "0 < unit_roundoff" by (rule unit_roundoff_pos)
  have k1: "2 * of_nat k * unit_roundoff \<le> 1"
    using Suc.prems u by (simp add: algebra_simps)
  have ih: "growth k \<le> 2 * of_nat k * unit_roundoff" using Suc.IH[OF k1] .
  have "growth (Suc k) = (1 + unit_roundoff) * growth k + unit_roundoff" by (rule growth_Suc)
  also have "\<dots> \<le> (1 + unit_roundoff) * (2 * of_nat k * unit_roundoff) + unit_roundoff"
    using ih u by (simp add: mult_left_mono)
  also have "\<dots> = 2 * of_nat k * unit_roundoff + unit_roundoff
                  + (2 * of_nat k * unit_roundoff) * unit_roundoff"
    by (simp add: algebra_simps)
  also have "\<dots> \<le> 2 * of_nat k * unit_roundoff + unit_roundoff + 1 * unit_roundoff"
    using k1 u by (intro add_left_mono mult_right_mono) auto
  also have "\<dots> = 2 * of_nat (Suc k) * unit_roundoff" by (simp add: algebra_simps)
  finally show ?case .
qed

lemma bucket_fold_gen:
  "coalesce (map_get (foldl (\<lambda>m e. map_set m (category e)
                    (fadd (coalesce (map_get m (category e)) (Fin 0)) (amount e))) m0 es) c) (Fin 0)
     = foldl fadd (coalesce (map_get m0 c) (Fin 0))
         (map amount (filter (\<lambda>e. category e = c) es))"
proof (induction es arbitrary: m0)
  case Nil
  then show ?case by simp
next
  case (Cons e es)
  define v where "v = fadd (coalesce (map_get m0 (category e)) (Fin 0)) (amount e)"
  have l: "coalesce (map_get (map_set m0 (category e) v) c) (Fin 0)
             = (if c = category e then v else coalesce (map_get m0 c) (Fin 0))"
    by (simp add: map_get_map_set coalesce_def)
  have "coalesce (map_get (foldl (\<lambda>m e. map_set m (category e)
                    (fadd (coalesce (map_get m (category e)) (Fin 0)) (amount e)))
                    (map_set m0 (category e) v) es) c) (Fin 0)
     = foldl fadd (coalesce (map_get (map_set m0 (category e) v) c) (Fin 0))
         (map amount (filter (\<lambda>e. category e = c) es))"
    by (rule Cons.IH)
  then show ?case
    unfolding l by (auto simp: v_def)
qed

lemma coalesce_empty: "coalesce (map_get [] c) d = d"
  by (simp add: map_get_def coalesce_def)

lemma bucket_fold:
  "coalesce (map_get (byCategory es) c) (Fin 0)
     = sum_numbers (map amount (filter (\<lambda>e. category e = c) es))"
  unfolding byCategory_def sum_numbers_def bucket_fold_gen coalesce_empty ..

lemma foldl_fadd_finite:
  assumes "\<forall>a \<in> set as. non_negative a" and "0 \<le> a0" and "foldl fadd (Fin a0) as = Fin r"
  shows "\<forall>a \<in> set as. isFinite a"
  using assms
proof (induction as arbitrary: a0)
  case Nil
  then show ?case by simp
next
  case (Cons a as)
  have nn: "\<forall>b \<in> set as. non_negative b" using Cons.prems(1) by simp
  from Cons.prems(1) consider "a = PInf" | x where "a = Fin x" "0 \<le> x"
    by (auto simp: non_negative_iff)
  then show ?case
  proof cases
    case 1
    then have "foldl fadd (Fin a0) (a # as) = PInf" using foldl_fadd_PInf[OF nn] by simp
    with Cons.prems(3) show ?thesis by simp
  next
    case 2
    have "0 \<le> a0 + x" using Cons.prems(2) 2(2) by simp
    from rnd_nonneg[OF this] consider "rnd (a0 + x) = PInf" | y where "rnd (a0 + x) = Fin y" "0 \<le> y"
      by auto
    then show ?thesis
    proof cases
      case 1
      then have "foldl fadd (Fin a0) (a # as) = PInf" using 2 foldl_fadd_PInf[OF nn] by simp
      with Cons.prems(3) show ?thesis by simp
    next
      case 2
      note y = this
      have "foldl fadd (Fin y) as = Fin r" using Cons.prems(3) \<open>a = Fin x\<close> y(1) by simp
      from Cons.IH[OF nn y(2) this] \<open>a = Fin x\<close> show ?thesis by (simp add: isFinite_def)
    qed
  qed
qed

lemma foldl_fadd_non_negative:
  assumes "\<forall>a \<in> set as. non_negative a" and "non_negative a0"
  shows "non_negative (foldl fadd a0 as)"
  using assms by (induction as arbitrary: a0) (simp_all add: non_negative_fadd)

lemma sum_list_abs_diff:
  assumes "\<forall>c \<in> set cs. \<bar>f c - g c\<bar> \<le> (h c :: rat)"
  shows "\<bar>sum_list (map f cs) - sum_list (map g cs)\<bar> \<le> sum_list (map h cs)"
  using assms
proof (induction cs)
  case Nil
  then show ?case by simp
next
  case (Cons c cs)
  then have "\<bar>f c - g c\<bar> \<le> h c"
    and "\<bar>sum_list (map f cs) - sum_list (map g cs)\<bar> \<le> sum_list (map h cs)" by simp_all
  then show ?case by (simp add: abs_le_iff)
qed

lemma finite_amounts:
  assumes "\<forall>e \<in> set es. non_negative (amount e) \<and> isFinite (amount e)"
  shows "map amount es = map Fin (map (\<lambda>e. exact_value (amount e)) es)"
    and "\<forall>x \<in> set (map (\<lambda>e. exact_value (amount e)) es). 0 \<le> x"
proof -
  have "\<forall>a \<in> set (map amount es). non_negative a \<and> isFinite a" using assms by simp
  from finite_non_negative_values[OF this]
  show "map amount es = map Fin (map (\<lambda>e. exact_value (amount e)) es)"
    and "\<forall>x \<in> set (map (\<lambda>e. exact_value (amount e)) es). 0 \<le> x"
    by (simp_all add: o_def)
qed

lemma sums_close:
  assumes fin: "\<forall>e \<in> set (es :: Expense list). non_negative (amount e) \<and> isFinite (amount e)"
    and t: "total (aggregator now es) = Fin t"
    and s: "sum_numbers (map bucket_amount (categoryBreakdown es tot)) = Fin s"
  shows "\<bar>s - t\<bar> \<le> 2 * growth (length es + 8)
                       * (exact_sum (map amount es) + 8 * smallest_normal)"
proof -
  define x where "x = (\<lambda>e :: Expense. exact_value (amount e))"
  define T where "T = sum_list (map x es)"
  define G where "G = growth (length es)"
  define H where "H = growth 8"
  define \<mu> where "\<mu> = smallest_normal"
  define A where "A = T + 8 * \<mu>"
  have \<mu>0: "0 < \<mu>" by (simp add: \<mu>_def smallest_normal_def)
  have G0: "0 \<le> G" and H0: "0 \<le> H" by (simp_all add: G_def H_def growth_nonneg)
  note am = finite_amounts[OF fin, folded x_def]
  have x0: "0 \<le> x e" if "e \<in> set es" for e using am(2) that by simp
  have T0: "0 \<le> T" unfolding T_def using am(2) by (intro sum_list_nonneg) auto
  have A0: "0 \<le> A" using T0 \<mu>0 by (simp add: A_def)
  have Tex: "exact_sum (map amount es) = T"
    by (simp add: exact_sum_def T_def x_def o_def)
  \<comment> \<open>the total\<close>
  have "sum_numbers (map Fin (map x es)) = Fin t"
    using t am(1) by (simp add: total_spec spec_total_def)
  from sum_numbers_error[OF am(2) this]
  have te: "\<bar>t - T\<bar> \<le> G * (T + \<mu>)" by (simp add: T_def G_def \<mu>_def)
  have "G * (T + \<mu>) \<le> G * A" using G0 \<mu>0 by (intro mult_left_mono) (auto simp: A_def)
  with te have teA: "\<bar>t - T\<bar> \<le> G * A" by linarith
  \<comment> \<open>the buckets\<close>
  define bh where "bh = (\<lambda>c. sum_numbers (map amount (filter (\<lambda>e. category e = c) es)))"
  define b where "b = (\<lambda>c. sum_list (map x (filter (\<lambda>e. category e = c) es)))"
  define \<beta> where "\<beta> = (\<lambda>c. exact_value (bh c))"
  have ba: "map bucket_amount (categoryBreakdown es tot) = map bh categories"
    by (simp add: bucket_amounts bucket_fold bh_def)
  have bnn: "non_negative (bh c)" for c
    unfolding bh_def sum_numbers_def using fin
    by (intro foldl_fadd_non_negative) (auto simp: non_negative_iff)
  have sb: "foldl fadd (Fin 0) (map bh categories) = Fin s"
    using s by (simp add: ba sum_numbers_def)
  have "\<forall>a \<in> set (map bh categories). isFinite a"
    using bnn by (intro foldl_fadd_finite[OF _ _ sb]) auto
  moreover have "c \<in> set categories" for c by (cases c) (simp_all add: categories_def)
  ultimately have bfin: "isFinite (bh c)" for c by simp
  have bhv: "bh c = Fin (\<beta> c)" for c
    using bfin[of c] by (cases "bh c") (simp_all add: \<beta>_def exact_value_def isFinite_def)
  have bc: "\<bar>\<beta> c - b c\<bar> \<le> G * (b c + \<mu>)" for c
  proof -
    let ?fs = "filter (\<lambda>e. category e = c) es"
    have f0: "\<forall>y \<in> set (map x ?fs). 0 \<le> y" using x0 by auto
    have ff: "\<forall>e \<in> set ?fs. non_negative (amount e) \<and> isFinite (amount e)"
      using fin by auto
    have mf: "map amount ?fs = map Fin (map x ?fs)"
      using finite_amounts(1)[OF ff] by (simp add: x_def)
    have "sum_numbers (map Fin (map x ?fs)) = Fin (\<beta> c)"
      using bhv[of c] unfolding bh_def mf .
    from sum_numbers_error[OF f0 this]
    have e: "\<bar>\<beta> c - b c\<bar> \<le> growth (length ?fs) * (b c + \<mu>)"
      by (simp add: b_def \<mu>_def)
    have "0 \<le> b c" unfolding b_def using f0 by (intro sum_list_nonneg) auto
    then have "growth (length ?fs) * (b c + \<mu>) \<le> G * (b c + \<mu>)"
      unfolding G_def using \<mu>0 by (intro mult_right_mono growth_mono) auto
    with e show ?thesis by linarith
  qed
  define B where "B = sum_list (map \<beta> categories)"
  have \<beta>0: "0 \<le> \<beta> c" for c
    using bnn[of c] bhv[of c] by (simp add: non_negative_iff)
  have "map bh categories = map Fin (map \<beta> categories)"
    by (simp add: bhv[symmetric] o_def)
  then have "sum_numbers (map Fin (map \<beta> categories)) = Fin s"
    using sb by (simp only: sum_numbers_def)
  moreover have "\<forall>y \<in> set (map \<beta> categories). 0 \<le> y" using \<beta>0 by simp
  ultimately have "\<bar>s - B\<bar> \<le> growth (length (map \<beta> categories)) * (B + \<mu>)"
    using sum_numbers_error[of "map \<beta> categories" s] by (simp add: B_def \<mu>_def)
  moreover have "length (map \<beta> categories) = 8" by (simp add: categories_def)
  ultimately have sB: "\<bar>s - B\<bar> \<le> H * (B + \<mu>)" by (simp only: H_def)
  have "\<bar>sum_list (map \<beta> categories) - sum_list (map b categories)\<bar>
          \<le> sum_list (map (\<lambda>c. G * (b c + \<mu>)) categories)"
    using bc by (intro sum_list_abs_diff) auto
  moreover have "sum_list (map b categories) = T"
    unfolding b_def T_def by (rule sum_by_category)
  moreover have "sum_list (map (\<lambda>c. G * (b c + \<mu>)) categories)
                   = G * (sum_list (map b categories) + 8 * \<mu>)"
    by (simp add: categories_def algebra_simps)
  ultimately have BT: "\<bar>B - T\<bar> \<le> G * A" by (simp add: B_def A_def)
  have "B + \<mu> \<le> A + G * A" using BT \<mu>0 by (simp add: A_def abs_le_iff)
  then have "H * (B + \<mu>) \<le> H * (A + G * A)" using H0 by (rule mult_left_mono)
  with sB BT have "\<bar>s - T\<bar> \<le> H * (A + G * A) + G * A" by linarith
  also have "\<dots> = growth (length es + 8) * A"
    by (simp add: growth_add G_def H_def algebra_simps)
  finally have sT: "\<bar>s - T\<bar> \<le> growth (length es + 8) * A" .
  have "G * A \<le> growth (length es + 8) * A"
    unfolding G_def using A0 by (intro mult_right_mono growth_mono) auto
  with teA have "\<bar>t - T\<bar> \<le> growth (length es + 8) * A" by linarith
  with sT have "\<bar>s - t\<bar> \<le> 2 * growth (length es + 8) * A" by linarith
  then show ?thesis by (simp add: A_def Tex \<mu>_def)
qed


text \<open>
  The binary64 values of 0.1, 0.2 and 0.3, and the sums of them that the counterexample
  to C7 evaluates.
\<close>

lemma rnd_tenth: "rnd (1 / 10) = Fin (3602879701896397 / 36028797018963968)"
  using rnd_eqI[of "- 4" "1 / 10" 7205759403792794] by (simp add: eval_rnd)

lemma rnd_two_tenths: "rnd (1 / 5) = Fin (3602879701896397 / 18014398509481984)"
  using rnd_eqI[of "- 3" "1 / 5" 7205759403792794] by (simp add: eval_rnd)

lemma rnd_three_tenths: "rnd (3 / 10) = Fin (5404319552844595 / 18014398509481984)"
  using rnd_eqI[of "- 2" "3 / 10" 5404319552844595] by (simp add: eval_rnd)

lemma zero_plus_tenth:
  "fadd (Fin 0) (Fin (3602879701896397 / 36028797018963968))
     = Fin (3602879701896397 / 36028797018963968)"
  using rnd_exact[of "3602879701896397 / 36028797018963968" 3602879701896397 "- 55"]
  by (simp add: pow2_def)

lemma tenth_plus_zero:
  "fadd (Fin (3602879701896397 / 36028797018963968)) (Fin 0)
     = Fin (3602879701896397 / 36028797018963968)"
  using rnd_exact[of "3602879701896397 / 36028797018963968" 3602879701896397 "- 55"]
  by (simp add: pow2_def)

lemma zero_plus_two_tenths:
  "fadd (Fin 0) (Fin (3602879701896397 / 18014398509481984))
     = Fin (3602879701896397 / 18014398509481984)"
  using rnd_exact[of "3602879701896397 / 18014398509481984" 3602879701896397 "- 54"]
  by (simp add: pow2_def)

lemma tenth_plus_two_tenths:
  "fadd (Fin (3602879701896397 / 36028797018963968)) (Fin (3602879701896397 / 18014398509481984))
     = Fin (1351079888211149 / 4503599627370496)"
  using rnd_eqI[of "- 2"
      "3602879701896397 / 36028797018963968 + 3602879701896397 / 18014398509481984"
      5404319552844596]
  by (simp add: eval_rnd)

lemma three_tenths_sum:
  "fadd (Fin (1351079888211149 / 4503599627370496)) (Fin (5404319552844595 / 18014398509481984))
     = Fin (1351079888211149 / 2251799813685248)"
  using rnd_eqI[of "- 1"
      "1351079888211149 / 4503599627370496 + 5404319552844595 / 18014398509481984"
      5404319552844596]
  by (simp add: eval_rnd)

lemma two_plus_three_tenths:
  "fadd (Fin (3602879701896397 / 18014398509481984)) (Fin (5404319552844595 / 18014398509481984))
     = Fin (1 / 2)"
  using rnd_eqI[of "- 1"
      "3602879701896397 / 18014398509481984 + 5404319552844595 / 18014398509481984"
      4503599627370496]
  by (simp add: eval_rnd)

lemma tenth_plus_half:
  "fadd (Fin (3602879701896397 / 36028797018963968)) (Fin (1 / 2))
     = Fin (5404319552844595 / 9007199254740992)"
  using rnd_eqI[of "- 1" "3602879701896397 / 36028797018963968 + 1 / 2" 5404319552844595]
  by (simp add: eval_rnd)

lemma six_tenths_plus_zero:
  "fadd (Fin (5404319552844595 / 9007199254740992)) (Fin 0)
     = Fin (5404319552844595 / 9007199254740992)"
  using rnd_exact[of "5404319552844595 / 9007199254740992" 5404319552844595 "- 53"]
  by (simp add: pow2_def)

lemmas decimal_sums =
  rnd_tenth rnd_two_tenths rnd_three_tenths zero_plus_tenth tenth_plus_zero
  zero_plus_two_tenths tenth_plus_two_tenths three_tenths_sum two_plus_three_tenths
  tenth_plus_half six_tenths_plus_zero

lemma decimal_amounts:
  "amount decimal_a = Fin (3602879701896397 / 36028797018963968)"
  "amount decimal_b = Fin (3602879701896397 / 18014398509481984)"
  "amount decimal_c = Fin (5404319552844595 / 18014398509481984)"
  by (simp_all add: decimal_a_def decimal_b_def decimal_c_def decimal_sums)

lemma decimal_total:
  "total (aggregator now [decimal_a, decimal_b, decimal_c])
     = Fin (1351079888211149 / 2251799813685248)"
  by (simp add: total_spec spec_total_def sum_numbers_def decimal_amounts decimal_sums
      del: fadd.simps)

lemma decimal_bucket_sum:
  "sum_numbers (map bucket_amount (categoryBreakdown [decimal_a, decimal_b, decimal_c] tot))
     = Fin (5404319552844595 / 9007199254740992)"
proof -
  have c: "category decimal_a = Housing" "category decimal_b = Food" "category decimal_c = Food"
    by (simp_all add: decimal_a_def decimal_b_def decimal_c_def)
  have bc: "byCategory [decimal_a, decimal_b, decimal_c]
     = [(Housing, Fin (3602879701896397 / 36028797018963968)), (Food, Fin (1 / 2))]"
    by (simp add: byCategory_def c decimal_amounts map_get_def coalesce_def decimal_sums
        del: fadd.simps)
  show ?thesis
    by (simp add: bucket_amounts bc categories_def map_get_def coalesce_def sum_numbers_def
        decimal_sums del: fadd.simps)
qed

text \<open>
  C7 as stated fails: for the amounts 0.1 (Housing), 0.2 and 0.3 (Food) the total is
  \<open>(0.1 + 0.2) + 0.3\<close>, the number 0.6000000000000001, and the amounts of the buckets
  are 0.1 and \<open>0.2 + 0.3 = 0.5\<close>, whose sum is the number 0.6.
\<close>

theorem category_sums_counterexample:
  "total (aggregator 0 [decimal_a, decimal_b, decimal_c])
     = Fin (1351079888211149 / 2251799813685248)
   \<and> sum_numbers (map bucket_amount (categoryBreakdown [decimal_a, decimal_b, decimal_c]
                      (total (aggregator 0 [decimal_a, decimal_b, decimal_c]))))
     = Fin (5404319552844595 / 9007199254740992)
   \<and> sum_numbers (map bucket_amount (categoryBreakdown [decimal_a, decimal_b, decimal_c]
                      (total (aggregator 0 [decimal_a, decimal_b, decimal_c]))))
     \<noteq> total (aggregator 0 [decimal_a, decimal_b, decimal_c])"
  by (simp add: decimal_total decimal_bucket_sum)

lemma whole_amount_value:
  "whole_amount a \<Longrightarrow> exact_value a = of_int \<lfloor>exact_value a\<rfloor>"
  by (cases a) (auto simp: whole_amount_def exact_value_def)

lemma exact_sum_int:
  assumes "\<forall>e \<in> set es. whole_amount (amount e)"
  shows "exact_sum (map amount es) = of_int (sum_list (map (\<lambda>e. \<lfloor>exact_value (amount e)\<rfloor>) es))"
  using assms
proof (induction es)
  case Nil
  then show ?case by (simp add: exact_sum_def)
next
  case (Cons e es)
  have "exact_value (amount e) = of_int \<lfloor>exact_value (amount e)\<rfloor>"
    using Cons.prems by (intro whole_amount_value) simp
  with Cons show ?case by (simp add: exact_sum_def)
qed

text \<open>
  When every amount is a whole number that is not negative and the amounts add up to at
  most \<open>2^53\<close>, every addition is exact.
\<close>

lemma category_sums_whole:
  assumes "\<forall>e \<in> set es. whole_amount (amount e)"
    and "exact_sum (map amount es) \<le> 2 ^ 53"
  shows "sum_numbers (map bucket_amount (categoryBreakdown es tot)) = total (aggregator now es)"
proof -
  define w where "w = (\<lambda>e :: Expense. \<lfloor>exact_value (amount e)\<rfloor>)"
  have a: "\<forall>e \<in> set es. amount e = Fin (of_int (w e)) \<and> 0 \<le> w e"
    using assms(1) whole_amount_int by (auto simp: w_def)
  have "(of_int (sum_list (map w es)) :: rat) \<le> of_int (2 ^ 53)"
    using assms(2) exact_sum_int[OF assms(1)] by (simp add: w_def)
  then have b: "sum_list (map w es) \<le> 2 ^ 53" by (simp only: of_int_le_iff)
  from category_sums_int[OF a b] show ?thesis by simp
qed

lemma growth_bound:
  assumes "k \<le> 2 ^ 52"
  shows "2 * growth k \<le> of_nat k / 2 ^ 51"
proof -
  have "(of_nat k :: rat) \<le> of_nat (2 ^ 52)" using assms by (simp only: of_nat_le_iff)
  then have "2 * of_nat k * unit_roundoff \<le> 1" by (simp add: unit_roundoff_def)
  from growth_linear[OF this] show ?thesis by (simp add: unit_roundoff_def)
qed

text \<open>
  C7, amended: the sum over the eight categories of the amounts of the buckets equals the
  total of the aggregator up to the rounding of the additions. For \<open>n\<close> records,
  \<open>n + 8 \<le> 2^52\<close>, with finite amounts that are not negative, of exact sum \<open>T\<close>, a finite
  total \<open>t\<close> and a finite sum \<open>s\<close> of the bucket amounts differ by at most
  \<open>(n + 8) / 2^51 * (T + 2^-1019)\<close>; and they are equal when every amount is a whole number
  and the amounts add up to at most \<open>2^53\<close>.
\<close>

theorem category_sums_close:
  assumes "\<forall>e \<in> set es. non_negative (amount e) \<and> isFinite (amount e)"
    and "length es + 8 \<le> 2 ^ 52"
    and "total (aggregator now es) = Fin t"
    and "sum_numbers (map bucket_amount
           (categoryBreakdown es (total (aggregator now es)))) = Fin s"
  shows "\<bar>s - t\<bar> \<le> of_nat (length es + 8) / 2 ^ 51
                       * (exact_sum (map amount es) + 1 / 2 ^ 1019)
       \<and> ((\<forall>e \<in> set es. whole_amount (amount e)) \<and> exact_sum (map amount es) \<le> 2 ^ 53
            \<longrightarrow> s = t)"
proof
  have T0: "0 \<le> exact_sum (map amount es)"
    unfolding exact_sum_def using assms(1)
    by (intro sum_list_nonneg) (auto simp: non_negative_iff exact_value_def)
  have "\<bar>s - t\<bar> \<le> 2 * growth (length es + 8)
                       * (exact_sum (map amount es) + 8 * smallest_normal)"
    using assms(1,3,4) by (rule sums_close)
  also have "\<dots> \<le> of_nat (length es + 8) / 2 ^ 51
                       * (exact_sum (map amount es) + 8 * smallest_normal)"
    using growth_bound[OF assms(2)] T0
    by (intro mult_right_mono) (auto simp: smallest_normal_def)
  also have "8 * smallest_normal = 1 / 2 ^ 1019" by (simp add: smallest_normal_def)
  finally show "\<bar>s - t\<bar> \<le> of_nat (length es + 8) / 2 ^ 51
                       * (exact_sum (map amount es) + 1 / 2 ^ 1019)" .
next
  show "(\<forall>e \<in> set es. whole_amount (amount e)) \<and> exact_sum (map amount es) \<le> 2 ^ 53
            \<longrightarrow> s = t"
    using category_sums_whole[of es "total (aggregator now es)" now] assms(3,4) by auto
qed

theorem category_sums_close_witness:
  "total (aggregator 0 [decimal_a, decimal_b, decimal_c])
     = Fin (1351079888211149 / 2251799813685248)
   \<and> sum_numbers (map bucket_amount (categoryBreakdown [decimal_a, decimal_b, decimal_c]
                      (total (aggregator 0 [decimal_a, decimal_b, decimal_c]))))
     = Fin (5404319552844595 / 9007199254740992)
   \<and> \<bar>5404319552844595 / 9007199254740992 - 1351079888211149 / 2251799813685248\<bar>
       \<le> of_nat (length [decimal_a, decimal_b, decimal_c] + 8) / 2 ^ 51
            * (exact_sum (map amount [decimal_a, decimal_b, decimal_c]) + 1 / 2 ^ 1019)
   \<and> whole_amount (amount sample_rent) \<and> whole_amount (amount sample_gym)
   \<and> exact_sum (map amount [sample_rent, sample_gym]) = 1865
   \<and> total (aggregator 0 [sample_rent, sample_gym]) = Fin 1865
   \<and> sum_numbers (map bucket_amount (categoryBreakdown [sample_rent, sample_gym]
                      (total (aggregator 0 [sample_rent, sample_gym])))) = Fin 1865"
proof -
  let ?ds = "[decimal_a, decimal_b, decimal_c]"
  let ?ws = "[sample_rent, sample_gym]"
  have fin: "\<forall>e \<in> set ?ds. non_negative (amount e) \<and> isFinite (amount e)"
    by (simp add: decimal_amounts non_negative_def js_le_def isFinite_def)
  have len: "length ?ds + 8 \<le> 2 ^ 52" by simp
  note d = category_sums_close[OF fin len decimal_total[of 0] decimal_bucket_sum]
  have w: "whole_amount (amount sample_rent)" "whole_amount (amount sample_gym)"
    by (simp_all add: sample_rent_def sample_gym_def whole_amount_def)
  have e: "exact_sum (map amount ?ws) = 1865"
    by (simp add: exact_sum_def exact_value_def sample_rent_def sample_gym_def)
  have r1: "rnd 1800 = Fin 1800" using rnd_int[of 1800] by simp
  have r2: "rnd 1865 = Fin 1865" using rnd_int[of 1865] by simp
  have t: "total (aggregator 0 ?ws) = Fin 1865"
    by (simp add: total_spec spec_total_def sum_numbers_def sample_rent_def sample_gym_def r1 r2)
  have r3: "rnd 65 = Fin 65" using rnd_int[of 65] by simp
  have bc: "byCategory ?ws = [(Housing, Fin 1800), (Health, Fin 65)]"
    by (simp add: byCategory_def sample_rent_def sample_gym_def map_get_def coalesce_def r1 r3)
  have s: "sum_numbers (map bucket_amount (categoryBreakdown ?ws tot)) = Fin 1865" for tot
    by (simp add: bucket_amounts bc categories_def map_get_def coalesce_def sum_numbers_def
        r1 r2)
  have fw: "\<forall>e \<in> set ?ws. non_negative (amount e) \<and> isFinite (amount e)"
    by (simp add: sample_rent_def sample_gym_def non_negative_def js_le_def isFinite_def)
  have lw: "length ?ws + 8 \<le> 2 ^ 52" by simp
  note ww = category_sums_close[OF fw lw t s]
  from d ww w e t s show ?thesis
    by (simp add: decimal_total decimal_bucket_sum)
qed

end
